theory Spec2Isabelle
  imports Complex_Main "HOL-Library.AList"
begin

section \<open>Values and the run context\<close>

text \<open>
  Python values that occur as step parameters, variables and step results
  (\<open>Dict[str, Any]\<close>).  A dict is an association list in insertion order;
  a well-formed dict has distinct keys.
\<close>

datatype pyval =
    PNone
  | PBool bool
  | PInt int
  | PStr string
  | PList "pyval list"
  | PDict "(string \<times> pyval) list"

type_synonym pydict = "(string \<times> pyval) list"

text \<open>
  Exceptions that travel through the engine.  \<open>str(e)\<close> and the f-strings that
  build log lines are kept structured: an entry records which format produced it
  and the values that were formatted.
\<close>

datatype exn =
    DeadlockError "string list"  \<comment> \<open>\<open>RuntimeError\<close> of the scheduler, formatted with the ids of the remaining steps\<close>
  | CallError string             \<comment> \<open>an exception raised by the capability invocation, with its message\<close>
  | UnhashableKey                \<comment> \<open>\<open>TypeError\<close>: a list or dict used with \<open>in\<close> on a dict\<close>
  | UnknownTemplate string       \<comment> \<open>\<open>ValueError\<close> of \<open>execute_workflow\<close>\<close>
  | ZeroDivisionError

datatype log_entry =
    StepFailure string exn  \<comment> \<open>\<open>f"Step {step.id}: {step.error}"\<close>\<close>
  | RunFailure exn          \<comment> \<open>\<open>str(e)\<close> appended by \<open>execute_workflow\<close>\<close>

record WorkflowContext =
  variables :: pydict
  step_results :: pydict
  error_log :: "log_entry list"
  start_time :: "nat option"
  end_time :: "nat option"

definition empty_context :: WorkflowContext where
  "empty_context =
     \<lparr>variables = [], step_results = [], error_log = [], start_time = None, end_time = None\<rparr>"

section \<open>Parameter processing\<close>

text \<open>
  \<open>value.startswith('{') and value.endswith('}')\<close>, and the slice \<open>value[1:-1]\<close>.
\<close>

definition is_placeholder :: "string \<Rightarrow> bool" where
  "is_placeholder s \<longleftrightarrow> s \<noteq> [] \<and> hd s = CHR ''{'' \<and> last s = CHR ''}''"

definition var_name_of :: "string \<Rightarrow> string" where
  "var_name_of s = butlast (tl s)"

definition lookup_placeholder :: "WorkflowContext \<Rightarrow> string \<Rightarrow> pyval" where
  "lookup_placeholder ctx s =
     (let var_name = var_name_of s in
      case map_of (variables ctx) var_name of
        Some v \<Rightarrow> v
      | None \<Rightarrow>
         (case map_of (step_results ctx) var_name of
            Some v \<Rightarrow> v
          | None \<Rightarrow> PStr s))"

text \<open>
  \<open>_process_step_parameters\<close>.  \<open>process_value\<close> is the body of the loop over
  \<open>params.items()\<close> (the four branches on the type of the value), and
  \<open>process_item\<close> is the expression of the list comprehension, which recurses into
  elements that are dicts and keeps every other element.
\<close>

fun process_value :: "WorkflowContext \<Rightarrow> pyval \<Rightarrow> pyval"
  and process_item :: "WorkflowContext \<Rightarrow> pyval \<Rightarrow> pyval"
where
  "process_value ctx (PStr s) =
     (if is_placeholder s then lookup_placeholder ctx s else PStr s)"
| "process_value ctx (PDict d) = PDict (map (\<lambda>kv. (fst kv, process_value ctx (snd kv))) d)"
| "process_value ctx (PList items) = PList (map (process_item ctx) items)"
| "process_value ctx PNone = PNone"
| "process_value ctx (PBool b) = PBool b"
| "process_value ctx (PInt i) = PInt i"
| "process_item ctx (PDict d) = PDict (map (\<lambda>kv. (fst kv, process_value ctx (snd kv))) d)"
| "process_item ctx PNone = PNone"
| "process_item ctx (PBool b) = PBool b"
| "process_item ctx (PInt i) = PInt i"
| "process_item ctx (PStr s) = PStr s"
| "process_item ctx (PList items) = PList items"

definition process_step_parameters :: "pydict \<Rightarrow> WorkflowContext \<Rightarrow> pydict" where
  "process_step_parameters params ctx = map (\<lambda>kv. (fst kv, process_value ctx (snd kv))) params"

section \<open>Steps, workflows and the object store\<close>

datatype StepStatus = WAITING | RUNNING | COMPLETED | FAILED | SKIPPED

datatype WorkflowStatus =
  WF_PENDING | WF_RUNNING | WF_COMPLETED | WF_FAILED | WF_CANCELLED | WF_PAUSED

text \<open>
  \<open>WorkflowStep\<close>.  The field \<open>id\<close> is \<open>step_id\<close> here.  \<open>result\<close> is \<open>PNone\<close> while
  unset.  The two timestamps of a step are written and never read by the engine;
  they are left out.
\<close>

record WorkflowStep =
  step_id :: string
  tool :: string
  action :: string
  parameters :: pydict
  dependencies :: "string list"
  conditions :: "pydict list"
  timeout :: int
  retry_count :: int
  on_success :: "pydict option"
  on_failure :: "pydict option"
  status :: StepStatus
  result :: pyval
  error :: "exn option"

text \<open>
  Step objects are shared by reference and mutated in place, so they live in a
  store: an address holds a step, and a workflow lists the addresses of its steps.
\<close>

type_synonym addr = nat
type_synonym store = "addr \<Rightarrow> WorkflowStep"

record Workflow =
  wf_id :: string
  name :: string
  description :: string
  steps :: "addr list"
  wf_context :: WorkflowContext
  wf_status :: WorkflowStatus
  created_at :: nat
  tags :: "string list"
  metadata :: pydict

section \<open>Executing one step\<close>

text \<open>
  \<open>_check_step_conditions\<close>: the first condition of a known type decides.
  \<open>var_name in context.variables\<close> raises \<open>TypeError\<close> for an unhashable
  \<open>var_name\<close> and is false for any other value that is not a key.
\<close>

fun check_conditions :: "pydict list \<Rightarrow> WorkflowContext \<Rightarrow> exn + bool" where
  "check_conditions [] ctx = Inr True"
| "check_conditions (condition # rest) ctx =
     (let condition_type = map_of condition ''type'' in
      if condition_type = Some (PStr ''approval_required'') then Inr True
      else if condition_type = Some (PStr ''file_exists'') then Inr True
      else if condition_type = Some (PStr ''variable_exists'') then
        (case map_of condition ''variable'' of
           Some (PStr var_name) \<Rightarrow> Inr (map_of (variables ctx) var_name \<noteq> None)
         | Some (PList _) \<Rightarrow> Inl UnhashableKey
         | Some (PDict _) \<Rightarrow> Inl UnhashableKey
         | _ \<Rightarrow> Inr False)
      else check_conditions rest ctx)"

definition check_step_conditions :: "WorkflowStep \<Rightarrow> WorkflowContext \<Rightarrow> exn + bool" where
  "check_step_conditions step ctx = check_conditions (conditions step) ctx"

text \<open>
  The capability invocation (\<open>_simulate_mcp_call\<close> in the source, a stand-in for
  the external tool) is awaited and may raise.  It is a parameter of the model:
  given the number of the batch, the id of the step, the tool, the action and
  the processed parameters, it yields the message of the exception it raises or
  the value it returns.  The first two arguments index the state of the outside
  world: when the call is made and on whose behalf.
\<close>

type_synonym invoker = "nat \<Rightarrow> string \<Rightarrow> string \<Rightarrow> string \<Rightarrow> pydict \<Rightarrow> string + pyval"

text \<open>
  \<open>_execute_step\<close>: the step as it is left, and the returned value or the raised
  exception.
\<close>

definition execute_step ::
  "invoker \<Rightarrow> nat \<Rightarrow> WorkflowStep \<Rightarrow> WorkflowContext \<Rightarrow> WorkflowStep \<times> (exn + pyval)"
where
  "execute_step invoke t step ctx =
     (let step1 = step\<lparr>status := RUNNING\<rparr> in
      case check_step_conditions step1 ctx of
        Inl e \<Rightarrow> (step1, Inl e)
      | Inr False \<Rightarrow> (step1\<lparr>status := SKIPPED\<rparr>, Inr PNone)
      | Inr True \<Rightarrow>
         (let processed_params = process_step_parameters (parameters step1) ctx in
          case invoke t (step_id step1) (tool step1) (action step1) processed_params of
            Inl msg \<Rightarrow> (step1, Inl (CallError msg))
          | Inr r \<Rightarrow> (step1, Inr r)))"

section \<open>The batch loop\<close>

text \<open>
  The state of \<open>_execute_workflow_steps\<close>: the store, the set \<open>completed_steps\<close>
  (a duplicate-free list, extended by \<open>List.insert\<close>) and the context of the run.
\<close>

record run_state =
  st_store :: store
  st_completed :: "string list"
  st_context :: WorkflowContext

definition is_ready :: "run_state \<Rightarrow> addr \<Rightarrow> bool" where
  "is_ready st a \<longleftrightarrow>
     (let step = st_store st a in
      step_id step \<notin> set (st_completed st) \<and>
      status step = WAITING \<and>
      (\<forall>dep \<in> set (dependencies step). dep \<in> set (st_completed st)))"

definition ready_steps :: "addr list \<Rightarrow> run_state \<Rightarrow> addr list" where
  "ready_steps addrs st = filter (is_ready st) addrs"

definition remaining_steps :: "addr list \<Rightarrow> run_state \<Rightarrow> addr list" where
  "remaining_steps addrs st =
     filter (\<lambda>a. step_id (st_store st a) \<notin> set (st_completed st)) addrs"

text \<open>
  \<open>asyncio.gather\<close> over the ready steps.  Every task runs \<open>_execute_step\<close> on its
  own step against the context as it is when the batch starts: the context is
  only written after the gather.
\<close>

fun run_tasks ::
  "invoker \<Rightarrow> nat \<Rightarrow> WorkflowContext \<Rightarrow> addr list \<Rightarrow> store \<Rightarrow> store \<times> (exn + pyval) list"
where
  "run_tasks invoke t ctx [] h = (h, [])"
| "run_tasks invoke t ctx (a # rest) h =
     (let (step', r) = execute_step invoke t (h a) ctx;
          (h', rs) = run_tasks invoke t ctx rest (h(a := step'))
      in (h', r # rs))"

text \<open>
  The body of the loop over \<open>enumerate(ready_steps)\<close> after the gather, for the
  step at address \<open>a\<close> and its entry of \<open>results\<close>: the new state, and the exception
  if the body raises.
\<close>

fun handle_result :: "addr \<Rightarrow> exn + pyval \<Rightarrow> run_state \<Rightarrow> run_state \<times> exn option" where
  "handle_result a (Inl e) st =
     (let step = (st_store st a)\<lparr>status := FAILED, error := Some e\<rparr>;
          ctx = (st_context st)\<lparr>error_log := error_log (st_context st) @ [StepFailure (step_id step) e]\<rparr>
      in if retry_count step > 0 then
           (st\<lparr>st_store := (st_store st)(a := step\<lparr>retry_count := retry_count step - 1, status := WAITING\<rparr>),
               st_context := ctx\<rparr>, None)
         else (st\<lparr>st_store := (st_store st)(a := step), st_context := ctx\<rparr>, Some e))"
| "handle_result a (Inr r) st =
     (let step = (st_store st a)\<lparr>status := COMPLETED, result := r\<rparr>;
          ctx = (st_context st)\<lparr>step_results := AList.update (step_id step) r (step_results (st_context st))\<rparr>
      in (\<lparr>st_store = (st_store st)(a := step),
           st_completed = List.insert (step_id step) (st_completed st),
           st_context = ctx\<rparr>, None))"

text \<open>The loop itself: a raise leaves it with the state as written so far.\<close>

fun handle_results :: "(addr \<times> (exn + pyval)) list \<Rightarrow> run_state \<Rightarrow> run_state \<times> exn option" where
  "handle_results [] st = (st, None)"
| "handle_results ((a, r) # rest) st =
     (case handle_result a r st of
        (st', Some e) \<Rightarrow> (st', Some e)
      | (st', None) \<Rightarrow> handle_results rest st')"

text \<open>
  One pass through the body of the \<open>while\<close> loop: either the loop ends (normally
  or by a raise) or it goes on with a new state.
\<close>

definition loop_body :: "invoker \<Rightarrow> addr list \<Rightarrow> nat \<Rightarrow> run_state \<Rightarrow> (run_state \<times> exn option) + run_state"
where
  "loop_body invoke addrs t st =
     (if length (st_completed st) < length addrs then
        (let ready = ready_steps addrs st in
         if ready = [] then
           (let remaining = remaining_steps addrs st in
            if remaining \<noteq> [] then
              Inl (st, Some (DeadlockError (map (\<lambda>a. step_id (st_store st a)) remaining)))
            else Inl (st, None))
         else
           (let (h, results) = run_tasks invoke t (st_context st) ready (st_store st) in
            case handle_results (zip ready results) (st\<lparr>st_store := h\<rparr>) of
              (st', Some e) \<Rightarrow> Inl (st', Some e)
            | (st', None) \<Rightarrow> Inr st'))
      else Inl (st, None))"

subsection \<open>Fields that a batch leaves alone\<close>

lemma execute_step_frame:
  "step_id (fst (execute_step invoke t step ctx)) = step_id step"
  "retry_count (fst (execute_step invoke t step ctx)) = retry_count step"
  "dependencies (fst (execute_step invoke t step ctx)) = dependencies step"
  by (simp_all add: execute_step_def Let_def split: sum.splits bool.splits)

lemma execute_step_status:
  "status (fst (execute_step invoke t step ctx)) \<noteq> WAITING"
  by (simp add: execute_step_def Let_def split: sum.splits bool.splits)

lemma run_tasks_frame:
  "run_tasks invoke t ctx as h = (h', rs) \<Longrightarrow>
     step_id (h' x) = step_id (h x) \<and> retry_count (h' x) = retry_count (h x)
     \<and> dependencies (h' x) = dependencies (h x) \<and> length rs = length as"
proof (induction as arbitrary: h h' rs)
  case Nil
  then show ?case by simp
next
  case (Cons a as)
  obtain s r where e: "execute_step invoke t (h a) ctx = (s, r)" by (cases "execute_step invoke t (h a) ctx")
  obtain h1 rs1 where r: "run_tasks invoke t ctx as (h(a := s)) = (h1, rs1)"
    by (cases "run_tasks invoke t ctx as (h(a := s))")
  from Cons.prems e r have eq: "h' = h1" "rs = r # rs1" by auto
  from execute_step_frame[of invoke t "h a" ctx] e
  have s: "step_id s = step_id (h a)" "retry_count s = retry_count (h a)" "dependencies s = dependencies (h a)"
    by auto
  from Cons.IH[OF r] s show ?case unfolding eq by (auto split: if_splits)
qed

lemma handle_result_frame:
  assumes "handle_result a r st = (st', exc)"
  shows "step_id (st_store st' x) = step_id (st_store st x)"
    and "dependencies (st_store st' x) = dependencies (st_store st x)"
    and "retry_count (st_store st' x) \<le> retry_count (st_store st x)"
    and "set (st_completed st) \<subseteq> set (st_completed st')"
  using assms by (cases r; auto simp: Let_def split: if_splits)+

lemma handle_results_frame:
  "handle_results rs st = (st', exc) \<Longrightarrow>
     step_id (st_store st' x) = step_id (st_store st x) \<and>
     dependencies (st_store st' x) = dependencies (st_store st x) \<and>
     retry_count (st_store st' x) \<le> retry_count (st_store st x) \<and>
     set (st_completed st) \<subseteq> set (st_completed st')"
proof (induction rs arbitrary: st)
  case Nil
  then show ?case by simp
next
  case (Cons p rs)
  obtain a r where p: "p = (a, r)" by (cases p)
  obtain st1 e1 where h: "handle_result a r st = (st1, e1)" by (cases "handle_result a r st")
  note f = handle_result_frame(1-3)[OF h, of x] handle_result_frame(4)[OF h]
  show ?case
  proof (cases e1)
    case None
    with Cons.prems p h have "handle_results rs st1 = (st', exc)" by simp
    from Cons.IH[OF this] f show ?thesis by force
  next
    case (Some e)
    with Cons.prems p h have "st' = st1" by simp
    with f show ?thesis by auto
  qed
qed

subsection \<open>Termination of the loop\<close>

text \<open>
  Every pass that goes on either completes a step that was not completed or uses
  up one retry: the number of step ids not yet completed plus the retries left
  decreases.
\<close>

definition pending :: "addr list \<Rightarrow> run_state \<Rightarrow> nat" where
  "pending addrs st = card ((\<lambda>a. step_id (st_store st a)) ` set addrs - set (st_completed st))"

definition budget :: "addr list \<Rightarrow> run_state \<Rightarrow> nat" where
  "budget addrs st = (\<Sum>a \<in> set addrs. nat (retry_count (st_store st a)))"

lemma pending_mono:
  assumes "\<And>x. step_id (st_store st' x) = step_id (st_store st x)"
    and "set (st_completed st) \<subseteq> set (st_completed st')"
  shows "pending addrs st' \<le> pending addrs st"
  unfolding pending_def using assms by (auto intro!: card_mono)

lemma budget_mono:
  assumes "\<And>x. retry_count (st_store st' x) \<le> retry_count (st_store st x)"
  shows "budget addrs st' \<le> budget addrs st"
  unfolding budget_def by (rule sum_mono) (simp add: assms nat_mono)

lemma handle_result_decreases:
  assumes h: "handle_result a r st = (st', None)"
    and a: "a \<in> set addrs"
    and nc: "step_id (st_store st a) \<notin> set (st_completed st)"
  shows "pending addrs st' + budget addrs st' < pending addrs st + budget addrs st"
proof (cases r)
  case (Inl e)
  with h have pos: "0 < retry_count (st_store st a)" by (auto simp: Let_def split: if_splits)
  from h Inl pos have st': "st_store st' = (st_store st)(a := (st_store st a)\<lparr>status := WAITING, error := Some e, retry_count := retry_count (st_store st a) - 1\<rparr>)"
    by (auto simp: Let_def fun_eq_iff)
  have "budget addrs st' < budget addrs st"
    unfolding budget_def
  proof (rule sum_strict_mono_ex1)
    show "finite (set addrs)" by simp
    show "\<forall>x\<in>set addrs. nat (retry_count (st_store st' x)) \<le> nat (retry_count (st_store st x))"
      by (auto simp: st' intro!: nat_mono)
    show "\<exists>x\<in>set addrs. nat (retry_count (st_store st' x)) < nat (retry_count (st_store st x))"
      using a pos by (intro bexI[of _ a]) (simp_all add: st')
  qed
  moreover have "pending addrs st' \<le> pending addrs st"
    using handle_result_frame[OF h] by (intro pending_mono) auto
  ultimately show ?thesis by simp
next
  case (Inr v)
  with h have c: "st_completed st' = List.insert (step_id (st_store st a)) (st_completed st)"
    by (auto simp: Let_def)
  have ids: "\<And>x. step_id (st_store st' x) = step_id (st_store st x)"
    using handle_result_frame(1)[OF h] .
  have "pending addrs st' < pending addrs st"
    unfolding pending_def
  proof (rule psubset_card_mono)
    show "finite ((\<lambda>a. step_id (st_store st a)) ` set addrs - set (st_completed st))" by simp
    show "(\<lambda>a. step_id (st_store st' a)) ` set addrs - set (st_completed st')
          \<subset> (\<lambda>a. step_id (st_store st a)) ` set addrs - set (st_completed st)"
      using a nc by (auto simp: ids c)
  qed
  moreover have "budget addrs st' \<le> budget addrs st"
    using handle_result_frame[OF h] by (intro budget_mono) auto
  ultimately show ?thesis by simp
qed

lemma handle_results_nonincreasing:
  assumes "handle_results rs st = (st', exc)"
  shows "pending addrs st' + budget addrs st' \<le> pending addrs st + budget addrs st"
proof -
  have "pending addrs st' \<le> pending addrs st"
    using handle_results_frame[OF assms] by (intro pending_mono) auto
  moreover have "budget addrs st' \<le> budget addrs st"
    using handle_results_frame[OF assms] by (intro budget_mono) auto
  ultimately show ?thesis by simp
qed

lemma loop_body_decreases:
  assumes "loop_body invoke addrs t st = Inr st'"
  shows "pending addrs st' + budget addrs st' < pending addrs st + budget addrs st"
proof -
  define ready where "ready = ready_steps addrs st"
  obtain h results where rt: "run_tasks invoke t (st_context st) ready (st_store st) = (h, results)"
    by (cases "run_tasks invoke t (st_context st) ready (st_store st)")
  from assms have ne: "ready \<noteq> []"
    and hr: "handle_results (zip ready results) (st\<lparr>st_store := h\<rparr>) = (st', None)"
    unfolding loop_body_def ready_def[symmetric] using rt
    by (auto simp: Let_def split: if_splits prod.splits option.splits)
  note fr = run_tasks_frame[OF rt]
  from ne obtain a rest where ready: "ready = a # rest" by (cases ready) auto
  with fr[of a] obtain r rs where results: "results = r # rs" by (cases results) auto
  from ready have "a \<in> set (ready_steps addrs st)" by (simp add: ready_def)
  then have a: "a \<in> set addrs" and nc: "step_id (st_store st a) \<notin> set (st_completed st)"
    by (auto simp: ready_steps_def is_ready_def Let_def)
  let ?st0 = "st\<lparr>st_store := h\<rparr>"
  obtain st1 e1 where h1: "handle_result a r ?st0 = (st1, e1)" by (cases "handle_result a r ?st0")
  from hr ready results h1 have e1: "e1 = None" and hr': "handle_results (zip rest rs) st1 = (st', None)"
    by (auto split: option.splits)
  have "pending addrs st1 + budget addrs st1 < pending addrs ?st0 + budget addrs ?st0"
    using h1 a nc fr[of a] unfolding e1 by (intro handle_result_decreases) auto
  moreover have "pending addrs ?st0 = pending addrs st" "budget addrs ?st0 = budget addrs st"
    using fr by (simp_all add: pending_def budget_def)
  moreover note handle_results_nonincreasing[OF hr', of addrs]
  ultimately show ?thesis by simp
qed

text \<open>\<open>_execute_workflow_steps\<close>: the final state, and the exception if it raises.\<close>

function execute_workflow_steps ::
  "invoker \<Rightarrow> addr list \<Rightarrow> nat \<Rightarrow> run_state \<Rightarrow> run_state \<times> exn option"
where
  "execute_workflow_steps invoke addrs t st =
     (case loop_body invoke addrs t st of
        Inl outcome \<Rightarrow> outcome
      | Inr st' \<Rightarrow> execute_workflow_steps invoke addrs (Suc t) st')"
  by pat_completeness auto
termination
  by (relation "measure (\<lambda>(invoke, addrs, t, st). pending addrs st + budget addrs st)")
     (auto dest: loop_body_decreases)

declare execute_workflow_steps.simps [simp del]

section \<open>The engine\<close>

text \<open>
  \<open>WorkflowEngine\<close>: its three dicts, the store of step objects and the next
  fresh address.  Creating an object takes the next fresh address.
\<close>

record WorkflowEngine =
  active_workflows :: "(string \<times> Workflow) list"
  completed_workflows :: "(string \<times> Workflow) list"
  workflow_templates :: "(string \<times> Workflow) list"
  objects :: store
  next_addr :: addr

text \<open>
  \<open>_copy_step\<close>: a new step with the ten copied fields; \<open>status\<close>, \<open>result\<close> and
  \<open>error\<close> take the defaults of the dataclass.  An empty \<open>on_success\<close> or
  \<open>on_failure\<close> is falsy and becomes \<open>None\<close>.
\<close>

definition copy_hook :: "pydict option \<Rightarrow> pydict option" where
  "copy_hook hook = (case hook of None \<Rightarrow> None | Some d \<Rightarrow> if d = [] then None else Some d)"

definition copy_step :: "WorkflowStep \<Rightarrow> WorkflowStep" where
  "copy_step step =
     \<lparr>step_id = step_id step,
      tool = tool step,
      action = action step,
      parameters = parameters step,
      dependencies = dependencies step,
      conditions = conditions step,
      timeout = timeout step,
      retry_count = retry_count step,
      on_success = copy_hook (on_success step),
      on_failure = copy_hook (on_failure step),
      status = WAITING,
      result = PNone,
      error = None\<rparr>"

text \<open>
  \<open>[self._copy_step(step) for step in template.steps]\<close>: the addresses of the
  copies, the store with the copies in it, and the next fresh address.
\<close>

fun copy_steps :: "addr list \<Rightarrow> store \<Rightarrow> addr \<Rightarrow> addr list \<times> store \<times> addr" where
  "copy_steps [] h n = ([], h, n)"
| "copy_steps (a # rest) h n =
     (let (copies, h', n') = copy_steps rest (h(n := copy_step (h a))) (Suc n)
      in (n # copies, h', n'))"

text \<open>\<open>instance.context.variables.update(parameters)\<close> on the empty dict of a new context.\<close>

definition initial_variables :: "pydict option \<Rightarrow> pydict" where
  "initial_variables params =
     (case params of
        None \<Rightarrow> []
      | Some ps \<Rightarrow> fold (\<lambda>kv. AList.update (fst kv) (snd kv)) ps [])"

definition initial_context :: "nat \<Rightarrow> pydict option \<Rightarrow> WorkflowContext" where
  "initial_context t_start params =
     empty_context\<lparr>variables := initial_variables params, start_time := Some t_start\<rparr>"

definition initial_state :: "store \<Rightarrow> WorkflowContext \<Rightarrow> run_state" where
  "initial_state h ctx = \<lparr>st_store = h, st_completed = [], st_context = ctx\<rparr>"

text \<open>
  \<open>execute_workflow\<close>.  \<open>new_id\<close> is the value of \<open>str(uuid.uuid4())\<close>; \<open>t_created\<close>,
  \<open>t_start\<close> and \<open>t_end\<close> are the three readings of \<open>datetime.now()\<close>.  An unknown
  template id raises; otherwise the id of the run is returned together with the
  engine as the call leaves it.
\<close>

definition execute_workflow ::
  "invoker \<Rightarrow> string \<Rightarrow> nat \<Rightarrow> nat \<Rightarrow> nat \<Rightarrow> WorkflowEngine \<Rightarrow> string \<Rightarrow> pydict option
     \<Rightarrow> exn + (WorkflowEngine \<times> string)"
where
  "execute_workflow invoke new_id t_created t_start t_end engine workflow_id params =
     (case map_of (workflow_templates engine) workflow_id of
        None \<Rightarrow> Inl (UnknownTemplate workflow_id)
      | Some template \<Rightarrow>
         (let (addrs, h, n) = copy_steps (steps template) (objects engine) (next_addr engine);
              ctx0 = initial_context t_start params;
              instance =
                \<lparr>wf_id = new_id, name = name template, description = description template,
                 steps = addrs, wf_context = ctx0, wf_status = WF_RUNNING,
                 created_at = t_created, tags = tags template, metadata = metadata template\<rparr>;
              active = AList.update new_id instance (active_workflows engine);
              (st, raised) = execute_workflow_steps invoke addrs 0 (initial_state h ctx0);
              ctx1 = (case raised of
                        None \<Rightarrow> st_context st
                      | Some e \<Rightarrow>
                          (st_context st)\<lparr>error_log := error_log (st_context st) @ [RunFailure e]\<rparr>);
              final = instance
                \<lparr>wf_status := (case raised of None \<Rightarrow> WF_COMPLETED | Some e \<Rightarrow> WF_FAILED),
                 wf_context := ctx1\<lparr>end_time := Some t_end\<rparr>\<rparr>
          in Inr (engine
                   \<lparr>active_workflows := AList.delete new_id active,
                    completed_workflows := AList.update new_id final (completed_workflows engine),
                    objects := st_store st,
                    next_addr := n\<rparr>,
                  new_id)))"

text \<open>\<open>get_workflow_status\<close>: \<open>None\<close> for an unknown id, the report otherwise.\<close>

record step_detail =
  detail_id :: string
  detail_tool :: string
  detail_action :: string
  detail_status :: StepStatus
  detail_error :: "exn option"

record status_report =
  report_id :: string
  report_name :: string
  report_status :: WorkflowStatus
  report_created_at :: nat
  report_start_time :: "nat option"
  report_end_time :: "nat option"
  total_steps :: nat
  completed_steps :: nat
  failed_steps :: nat
  step_details :: "step_detail list"
  report_error_log :: "log_entry list"

definition count_status :: "store \<Rightarrow> addr list \<Rightarrow> StepStatus \<Rightarrow> nat" where
  "count_status h addrs s = length (filter (\<lambda>a. status (h a) = s) addrs)"

definition get_workflow_status :: "WorkflowEngine \<Rightarrow> string \<Rightarrow> status_report option" where
  "get_workflow_status engine workflow_id =
     (case (case map_of (active_workflows engine) workflow_id of
              Some w \<Rightarrow> Some w
            | None \<Rightarrow> map_of (completed_workflows engine) workflow_id) of
        None \<Rightarrow> None
      | Some workflow \<Rightarrow>
          Some \<lparr>report_id = wf_id workflow,
                report_name = name workflow,
                report_status = wf_status workflow,
                report_created_at = created_at workflow,
                report_start_time = start_time (wf_context workflow),
                report_end_time = end_time (wf_context workflow),
                total_steps = length (steps workflow),
                completed_steps = count_status (objects engine) (steps workflow) COMPLETED,
                failed_steps = count_status (objects engine) (steps workflow) FAILED,
                step_details =
                  map (\<lambda>a. let step = objects engine a in
                         \<lparr>detail_id = step_id step, detail_tool = tool step,
                          detail_action = action step, detail_status = status step,
                          detail_error = error step\<rparr>) (steps workflow),
                report_error_log = error_log (wf_context workflow)\<rparr>)"

text \<open>
  \<open>list_workflows\<close>.  \<open>{**active, **completed}\<close> keeps the keys of the first dict
  in place and writes the entries of the second over them.  The quotient of two
  ints is the exact rational here; a zero divisor raises.  \<open>sorted\<close> with
  \<open>reverse=True\<close> is stable.
\<close>

record listing =
  listing_id :: string
  listing_name :: string
  listing_status :: WorkflowStatus
  listing_created_at :: nat
  listing_tags :: "string list"
  progress :: rat

definition true_div :: "nat \<Rightarrow> nat \<Rightarrow> exn + rat" where
  "true_div a b = (if b = 0 then Inl ZeroDivisionError else Inr (of_nat a / of_nat b))"

fun list_entries :: "store \<Rightarrow> WorkflowStatus option \<Rightarrow> Workflow list \<Rightarrow> exn + listing list" where
  "list_entries h status_filter [] = Inr []"
| "list_entries h status_filter (workflow # rest) =
     (if status_filter = None \<or> status_filter = Some (wf_status workflow) then
        (case true_div (count_status h (steps workflow) COMPLETED) (length (steps workflow)) of
           Inl e \<Rightarrow> Inl e
         | Inr p \<Rightarrow>
            (case list_entries h status_filter rest of
               Inl e \<Rightarrow> Inl e
             | Inr entries \<Rightarrow>
                 Inr (\<lparr>listing_id = wf_id workflow, listing_name = name workflow,
                       listing_status = wf_status workflow,
                       listing_created_at = created_at workflow,
                       listing_tags = tags workflow, progress = p\<rparr> # entries)))
      else list_entries h status_filter rest)"

definition list_workflows :: "WorkflowEngine \<Rightarrow> WorkflowStatus option \<Rightarrow> exn + listing list" where
  "list_workflows engine status_filter =
     (let all_workflows =
            fold (\<lambda>kv. AList.update (fst kv) (snd kv)) (completed_workflows engine)
              (active_workflows engine)
      in case list_entries (objects engine) status_filter (map snd all_workflows) of
           Inl e \<Rightarrow> Inl e
         | Inr entries \<Rightarrow> Inr (rev (sort_key listing_created_at (rev entries))))"

section \<open>Properties of parameter processing\<close>

text \<open>The placeholder string for a name, \<open>"{" + var + "}"\<close>.\<close>

definition placeholder :: "string \<Rightarrow> string" where
  "placeholder var = ''{'' @ var @ ''}''"

text \<open>What a placeholder stands for in a context: a variable first, then a step result, else itself.\<close>

definition resolved :: "WorkflowContext \<Rightarrow> string \<Rightarrow> pyval" where
  "resolved ctx var =
     (case map_of (variables ctx) var of
        Some v \<Rightarrow> v
      | None \<Rightarrow>
         (case map_of (step_results ctx) var of
            Some v \<Rightarrow> v
          | None \<Rightarrow> PStr (placeholder var)))"

text \<open>The value reached from a value by a path of dict keys.\<close>

fun lookup_path :: "string list \<Rightarrow> pyval \<Rightarrow> pyval option" where
  "lookup_path [] v = Some v"
| "lookup_path (k # ks) (PDict d) = (case map_of d k of None \<Rightarrow> None | Some v \<Rightarrow> lookup_path ks v)"
| "lookup_path (k # ks) v = None"

text \<open>A value with no placeholder string anywhere in it.\<close>

fun placeholder_free :: "pyval \<Rightarrow> bool" where
  "placeholder_free (PStr s) = (\<not> is_placeholder s)"
| "placeholder_free (PDict d) = list_all (\<lambda>kv. placeholder_free (snd kv)) d"
| "placeholder_free (PList xs) = list_all placeholder_free xs"
| "placeholder_free v = True"

lemma is_placeholder_placeholder: "is_placeholder (placeholder var)"
  by (simp add: is_placeholder_def placeholder_def)

lemma var_name_of_placeholder: "var_name_of (placeholder var) = var"
  by (simp add: var_name_of_def placeholder_def)

lemma process_value_placeholder:
  "process_value ctx (PStr (placeholder var)) = resolved ctx var"
  by (simp add: is_placeholder_placeholder lookup_placeholder_def var_name_of_placeholder
      resolved_def)

lemma map_of_process:
  "map_of (process_step_parameters params ctx) key = map_option (process_value ctx) (map_of params key)"
  unfolding process_step_parameters_def by (induction params) auto

lemma process_nested: "process_value ctx (PDict d) = PDict (process_step_parameters d ctx)"
  by (simp add: process_step_parameters_def)

lemma process_item_cases:
  "process_item ctx item =
     (case item of PDict d \<Rightarrow> PDict (process_step_parameters d ctx) | _ \<Rightarrow> item)"
  by (cases item) (simp_all add: process_step_parameters_def)

lemma lookup_path_process:
  "lookup_path path v = Some w \<Longrightarrow>
     lookup_path path (process_value ctx v) = Some (process_value ctx w)"
proof (induction path v rule: lookup_path.induct)
  case (2 k ks d)
  then obtain v where v: "map_of d k = Some v" by (auto split: option.splits)
  with 2 show ?case
    by (simp add: process_nested map_of_process del: process_value.simps)
qed simp_all

lemma placeholder_free_unchanged:
  "placeholder_free v \<Longrightarrow> process_value ctx v = v"
  "placeholder_free v \<Longrightarrow> process_item ctx v = v"
proof (induction ctx v and ctx v rule: process_value_process_item.induct)
  case (2 ctx d)
  then show ?case by (auto simp: list_all_iff intro!: map_idI)
next
  case (3 ctx items)
  then show ?case by (auto simp: list_all_iff intro!: map_idI)
next
  case (7 ctx d)
  then show ?case by (auto simp: list_all_iff intro!: map_idI)
qed simp_all

text \<open>
  C4.  A parameter whose value is the string \<open>{var}\<close> is replaced by the variable
  \<open>var\<close> if there is one, else by the result of the step \<open>var\<close> if there is one,
  else it stays the placeholder string; the value put in is of any type.  The
  result has the keys of the input, and no error is possible: the function is
  total.
\<close>

theorem placeholder_resolution:
  assumes "map_of params key = Some (PStr (placeholder var))"
  shows "map_of (process_step_parameters params ctx) key =
           Some (case map_of (variables ctx) var of
                   Some v \<Rightarrow> v
                 | None \<Rightarrow>
                    (case map_of (step_results ctx) var of
                       Some v \<Rightarrow> v
                     | None \<Rightarrow> PStr (placeholder var)))
         \<and> map fst (process_step_parameters params ctx) = map fst params"
proof
  show "map_of (process_step_parameters params ctx) key =
           Some (case map_of (variables ctx) var of
                   Some v \<Rightarrow> v
                 | None \<Rightarrow>
                    (case map_of (step_results ctx) var of
                       Some v \<Rightarrow> v
                     | None \<Rightarrow> PStr (placeholder var)))"
    using assms process_value_placeholder[of ctx var]
    by (simp add: map_of_process resolved_def del: process_value.simps)
  show "map fst (process_step_parameters params ctx) = map fst params"
    by (simp add: process_step_parameters_def comp_def)
qed

theorem placeholder_resolution_witness:
  "map_of [(''q'', PStr ''{town}''), (''r'', PStr ''{missing}''), (''s'', PStr ''{step1}'')] ''q''
     = Some (PStr (placeholder ''town''))
   \<and> map_of (process_step_parameters
        [(''q'', PStr ''{town}''), (''r'', PStr ''{missing}''), (''s'', PStr ''{step1}'')]
        (empty_context\<lparr>variables := [(''town'', PStr ''Seoul'')],
                        step_results := [(''town'', PInt 1), (''step1'', PList [PInt 7])]\<rparr>)) ''q''
     = Some (PStr ''Seoul'')"
  using placeholder_resolution
    [of "[(''q'', PStr ''{town}''), (''r'', PStr ''{missing}''), (''s'', PStr ''{step1}'')]"
        "''q''" "''town''"
        "empty_context\<lparr>variables := [(''town'', PStr ''Seoul'')],
                        step_results := [(''town'', PInt 1), (''step1'', PList [PInt 7])]\<rparr>"]
  by (simp add: placeholder_def empty_context_def)

text \<open>
  C5, as the claim states it, fails: a placeholder string that is an element of
  a list is not substituted.
\<close>

theorem list_element_counterexample:
  "process_step_parameters [(''tags'', PList [PStr ''{town}''])]
      (empty_context\<lparr>variables := [(''town'', PStr ''Seoul'')]\<rparr>)
     = [(''tags'', PList [PStr ''{town}''])]
   \<and> process_step_parameters [(''tags'', PList [PStr ''{town}''])]
      (empty_context\<lparr>variables := [(''town'', PStr ''Seoul'')]\<rparr>)
     \<noteq> [(''tags'', PList [PStr ''Seoul''])]"
  by (simp add: process_step_parameters_def)

text \<open>
  C5, amended.  Mappings nested in mappings are resolved at any depth: a
  placeholder string reached by a path of keys is replaced as at the top level.
  A list reached by a path of keys has its elements that are mappings resolved
  and every other element, a placeholder string too, kept as it is.  A value
  with no placeholder string in it is returned unchanged.
\<close>

theorem nested_resolution:
  "(lookup_path p1 (PDict params) = Some (PStr (placeholder var)) \<longrightarrow>
      lookup_path p1 (PDict (process_step_parameters params ctx)) = Some (resolved ctx var))
   \<and> (lookup_path p2 (PDict params) = Some (PList xs) \<longrightarrow>
      lookup_path p2 (PDict (process_step_parameters params ctx)) =
        Some (PList (map (\<lambda>x. case x of PDict d \<Rightarrow> PDict (process_step_parameters d ctx) | _ \<Rightarrow> x) xs)))
   \<and> (placeholder_free v \<longrightarrow> process_value ctx v = v)"
proof (intro conjI impI)
  assume "lookup_path p1 (PDict params) = Some (PStr (placeholder var))"
  from lookup_path_process[OF this, of ctx]
  show "lookup_path p1 (PDict (process_step_parameters params ctx)) = Some (resolved ctx var)"
    by (simp only: process_nested process_value_placeholder)
next
  assume "lookup_path p2 (PDict params) = Some (PList xs)"
  from lookup_path_process[OF this, of ctx]
  have "lookup_path p2 (PDict (process_step_parameters params ctx))
          = Some (PList (map (process_item ctx) xs))"
    by (simp only: process_nested process_value.simps)
  also have "process_item ctx = (\<lambda>x. case x of PDict d \<Rightarrow> PDict (process_step_parameters d ctx) | _ \<Rightarrow> x)"
    by (rule ext) (rule process_item_cases)
  finally show "lookup_path p2 (PDict (process_step_parameters params ctx)) =
        Some (PList (map (\<lambda>x. case x of PDict d \<Rightarrow> PDict (process_step_parameters d ctx) | _ \<Rightarrow> x) xs))" .
next
  assume "placeholder_free v"
  then show "process_value ctx v = v" by (rule placeholder_free_unchanged)
qed

theorem nested_resolution_witness:
  "lookup_path [''outer'', ''inner'']
      (PDict [(''outer'', PDict [(''inner'', PStr ''{town}'')]),
              (''tags'', PList [PStr ''{town}'', PDict [(''k'', PStr ''{town}'')]])])
     = Some (PStr (placeholder ''town''))
   \<and> lookup_path [''tags'']
      (PDict [(''outer'', PDict [(''inner'', PStr ''{town}'')]),
              (''tags'', PList [PStr ''{town}'', PDict [(''k'', PStr ''{town}'')]])])
     = Some (PList [PStr ''{town}'', PDict [(''k'', PStr ''{town}'')]])
   \<and> placeholder_free (PList [PStr ''town'', PInt 3])
   \<and> process_step_parameters
        [(''outer'', PDict [(''inner'', PStr ''{town}'')]),
         (''tags'', PList [PStr ''{town}'', PDict [(''k'', PStr ''{town}'')]])]
        (empty_context\<lparr>variables := [(''town'', PStr ''Seoul'')]\<rparr>)
     = [(''outer'', PDict [(''inner'', PStr ''Seoul'')]),
        (''tags'', PList [PStr ''{town}'', PDict [(''k'', PStr ''Seoul'')]])]
   \<and> lookup_path [''outer'', ''inner'']
        (PDict (process_step_parameters
           [(''outer'', PDict [(''inner'', PStr ''{town}'')]),
            (''tags'', PList [PStr ''{town}'', PDict [(''k'', PStr ''{town}'')]])]
           (empty_context\<lparr>variables := [(''town'', PStr ''Seoul'')]\<rparr>)))
     = Some (PStr ''Seoul'')"
  using nested_resolution
    [of "[''outer'', ''inner'']"
        "[(''outer'', PDict [(''inner'', PStr ''{town}'')]),
          (''tags'', PList [PStr ''{town}'', PDict [(''k'', PStr ''{town}'')]])]"
        "''town''"
        "empty_context\<lparr>variables := [(''town'', PStr ''Seoul'')]\<rparr>"
        "[''tags'']" "[PStr ''{town}'', PDict [(''k'', PStr ''{town}'')]]"
        "PList [PStr ''town'', PInt 3]"]
  by (simp add: placeholder_def empty_context_def process_step_parameters_def is_placeholder_def
      lookup_placeholder_def var_name_of_def resolved_def)

section \<open>Frame and allocation lemmas\<close>

subsection \<open>Only the steps of the run are written\<close>

lemma run_tasks_other:
  "run_tasks invoke t ctx as h = (h', rs) \<Longrightarrow> x \<notin> set as \<Longrightarrow> h' x = h x"
proof (induction as arbitrary: h h' rs)
  case Nil
  then show ?case by simp
next
  case (Cons a as)
  obtain s r where e: "execute_step invoke t (h a) ctx = (s, r)" by (cases "execute_step invoke t (h a) ctx")
  obtain h1 rs1 where r: "run_tasks invoke t ctx as (h(a := s)) = (h1, rs1)"
    by (cases "run_tasks invoke t ctx as (h(a := s))")
  from Cons.prems e r have eq: "h' = h1" by auto
  from Cons.IH[OF r] Cons.prems(2) show ?case unfolding eq by auto
qed

lemma handle_result_other:
  "handle_result a r st = (st', exc) \<Longrightarrow> x \<noteq> a \<Longrightarrow> st_store st' x = st_store st x"
  by (cases r) (auto simp: Let_def split: if_splits)

lemma handle_results_other:
  "handle_results rs st = (st', exc) \<Longrightarrow> x \<notin> fst ` set rs \<Longrightarrow> st_store st' x = st_store st x"
proof (induction rs arbitrary: st)
  case Nil
  then show ?case by simp
next
  case (Cons p rs)
  obtain a r where p: "p = (a, r)" by (cases p)
  obtain st1 e1 where h: "handle_result a r st = (st1, e1)" by (cases "handle_result a r st")
  from Cons.prems(2) p have xa: "x \<noteq> a" and xr: "x \<notin> fst ` set rs" by auto
  note f = handle_result_other[OF h xa]
  show ?case
  proof (cases e1)
    case None
    with Cons.prems p h have "handle_results rs st1 = (st', exc)" by simp
    from Cons.IH[OF this xr] f show ?thesis by simp
  next
    case (Some e)
    with Cons.prems p h have "st' = st1" by simp
    with f show ?thesis by simp
  qed
qed

text \<open>The two ways a pass through the loop body can end, taken apart.\<close>

lemma loop_body_cases:
  assumes "loop_body invoke addrs t st = res"
  obtains
    (finished) "res = Inl (st, None)"
  | (deadlock) "ready_steps addrs st = []" "remaining_steps addrs st \<noteq> []"
      "length (st_completed st) < length addrs"
      "res = Inl (st, Some (DeadlockError (map (\<lambda>a. step_id (st_store st a)) (remaining_steps addrs st))))"
  | (batch) h results st' exc where
      "length (st_completed st) < length addrs"
      "ready_steps addrs st \<noteq> []"
      "run_tasks invoke t (st_context st) (ready_steps addrs st) (st_store st) = (h, results)"
      "handle_results (zip (ready_steps addrs st) results) (st\<lparr>st_store := h\<rparr>) = (st', exc)"
      "res = (case exc of Some e \<Rightarrow> Inl (st', Some e) | None \<Rightarrow> Inr st')"
proof -
  obtain h results where rt:
    "run_tasks invoke t (st_context st) (ready_steps addrs st) (st_store st) = (h, results)"
    by (cases "run_tasks invoke t (st_context st) (ready_steps addrs st) (st_store st)")
  obtain st' exc where hr:
    "handle_results (zip (ready_steps addrs st) results) (st\<lparr>st_store := h\<rparr>) = (st', exc)"
    by (cases "handle_results (zip (ready_steps addrs st) results) (st\<lparr>st_store := h\<rparr>)")
  show thesis
  proof (cases "length (st_completed st) < length addrs")
    case False
    with assms have "res = Inl (st, None)" by (simp add: loop_body_def)
    then show ?thesis by (rule finished)
  next
    case lt: True
    show ?thesis
    proof (cases "ready_steps addrs st = []")
      case True
      show ?thesis
      proof (cases "remaining_steps addrs st = []")
        case True
        with \<open>ready_steps addrs st = []\<close> lt assms have "res = Inl (st, None)"
          by (simp add: loop_body_def)
        then show ?thesis by (rule finished)
      next
        case False
        with \<open>ready_steps addrs st = []\<close> lt assms show ?thesis
          by (intro deadlock) (simp_all add: loop_body_def)
      qed
    next
      case False
      with lt assms rt hr
      have "res = (case exc of Some e \<Rightarrow> Inl (st', Some e) | None \<Rightarrow> Inr st')"
        by (simp add: loop_body_def split: option.splits)
      with lt False rt hr show ?thesis by (rule batch)
    qed
  qed
qed

lemma loop_body_other:
  assumes "loop_body invoke addrs t st = res" and "x \<notin> set addrs"
  shows "st_store (case res of Inl (st', exc) \<Rightarrow> st' | Inr st' \<Rightarrow> st') x = st_store st x"
  using assms(1)
proof (cases rule: loop_body_cases)
  case (batch h results st' exc)
  have r: "set (ready_steps addrs st) \<subseteq> set addrs" by (auto simp: ready_steps_def)
  with assms(2) have "x \<notin> set (ready_steps addrs st)" by auto
  from run_tasks_other[OF batch(3) this] have 1: "h x = st_store st x" .
  have "x \<notin> fst ` set (zip (ready_steps addrs st) results)"
    using r assms(2) by (auto dest: set_zip_leftD)
  from handle_results_other[OF batch(4) this] 1 have "st_store st' x = st_store st x" by simp
  with batch(5) show ?thesis by (cases exc) simp_all
qed simp_all

lemma execute_workflow_steps_other:
  "execute_workflow_steps invoke addrs t st = (st', exc) \<Longrightarrow> x \<notin> set addrs \<Longrightarrow>
     st_store st' x = st_store st x"
proof (induction invoke addrs t st rule: execute_workflow_steps.induct)
  case (1 invoke addrs t st)
  show ?case
  proof (cases "loop_body invoke addrs t st")
    case (Inl outcome)
    with "1.prems"(1) have "outcome = (st', exc)" by (simp add: execute_workflow_steps.simps)
    with loop_body_other[OF Inl "1.prems"(2)] show ?thesis by simp
  next
    case (Inr st1)
    with "1.prems"(1) have "execute_workflow_steps invoke addrs (Suc t) st1 = (st', exc)"
      by (simp add: execute_workflow_steps.simps)
    from "1.IH"[OF Inr this "1.prems"(2)] loop_body_other[OF Inr "1.prems"(2)]
    show ?thesis by simp
  qed
qed

subsection \<open>Copies are new objects\<close>

lemma copy_steps_spec:
  "copy_steps as h n = (bs, h', n') \<Longrightarrow>
     bs = [n ..< n + length as] \<and> n' = n + length as \<and> (\<forall>x < n. h' x = h x)"
proof (induction as arbitrary: h n bs h' n')
  case Nil
  then show ?case by simp
next
  case (Cons a as)
  obtain cs h1 n1 where r: "copy_steps as (h(n := copy_step (h a))) (Suc n) = (cs, h1, n1)"
    by (cases "copy_steps as (h(n := copy_step (h a))) (Suc n)")
  from Cons.prems r have eq: "bs = n # cs" "h' = h1" "n' = n1" by auto
  from Cons.IH[OF r] show ?case unfolding eq by (auto simp: upt_rec)
qed

lemma copy_steps_copies:
  "copy_steps as h n = (bs, h', n') \<Longrightarrow> \<forall>a \<in> set as. a < n \<Longrightarrow> i < length as \<Longrightarrow>
     h' (n + i) = copy_step (h (as ! i))"
proof (induction as arbitrary: h n bs h' n' i)
  case Nil
  then show ?case by simp
next
  case (Cons a as)
  obtain cs h1 n1 where r: "copy_steps as (h(n := copy_step (h a))) (Suc n) = (cs, h1, n1)"
    by (cases "copy_steps as (h(n := copy_step (h a))) (Suc n)")
  from Cons.prems(1) r have eq: "h' = h1" by auto
  show ?case
  proof (cases i)
    case 0
    from copy_steps_spec[OF r] have "h1 n = (h(n := copy_step (h a))) n" by simp
    with 0 eq show ?thesis by simp
  next
    case (Suc j)
    from Cons.prems(2) have lt: "\<forall>a \<in> set as. a < Suc n" by auto
    from Suc Cons.prems(3) have j: "j < length as" by simp
    from Cons.prems(2) j have "as ! j \<noteq> n" by (metis less_irrefl list.set_intros(2) nth_mem)
    with Cons.IH[OF r lt j] have "h1 (Suc n + j) = copy_step (h (as ! j))" by simp
    with Suc eq show ?thesis by simp
  qed
qed

section \<open>Sample workflows\<close>

text \<open>
  Inputs for the concrete checks below: steps built by the constructor of the
  dataclass with its defaults, an engine with a linear chain \<open>A\<close>, \<open>B\<close>, \<open>C\<close>, two steps
  that depend on each other, and a workflow without steps; and an invoker that
  returns the parameters it is given.
\<close>

definition new_step :: "string \<Rightarrow> string list \<Rightarrow> int \<Rightarrow> WorkflowStep" where
  "new_step sid deps retries =
     \<lparr>step_id = sid, tool = ''mcp__github__'', action = ''search_repositories'',
      parameters = [(''query'', PStr ''{repo_query}'')], dependencies = deps, conditions = [],
      timeout = 30, retry_count = retries, on_success = None, on_failure = None,
      status = WAITING, result = PNone, error = None\<rparr>"

definition new_workflow :: "string \<Rightarrow> addr list \<Rightarrow> Workflow" where
  "new_workflow wid addrs =
     \<lparr>wf_id = wid, name = wid, description = [], steps = addrs, wf_context = empty_context,
      wf_status = WF_PENDING, created_at = 0, tags = [], metadata = []\<rparr>"

definition demo_store :: store where
  "demo_store =
     (\<lambda>a. new_step [] [] 0)
       (0 := new_step ''A'' [] 3,
        1 := new_step ''B'' [''A''] 3,
        2 := new_step ''C'' [''B''] 3,
        3 := new_step ''X'' [''Y''] 3,
        4 := new_step ''Y'' [''X''] 3)"

definition demo_engine :: WorkflowEngine where
  "demo_engine =
     \<lparr>active_workflows = [], completed_workflows = [],
      workflow_templates =
        [(''chain'', new_workflow ''chain'' [0, 1, 2]),
         (''cycle'', new_workflow ''cycle'' [3, 4]),
         (''empty'', new_workflow ''empty'' [])],
      objects = demo_store, next_addr = 5\<rparr>"

definition echo :: invoker where
  "echo t sid tname aname ps = Inr (PDict ps)"

definition run_outcome ::
  "invoker \<Rightarrow> WorkflowEngine \<Rightarrow> Workflow \<Rightarrow> nat \<Rightarrow> pydict option \<Rightarrow> run_state \<times> exn option"
where
  "run_outcome invoke engine template t_start params =
     (let (addrs, h, n) = copy_steps (steps template) (objects engine) (next_addr engine)
      in execute_workflow_steps invoke addrs 0 (initial_state h (initial_context t_start params)))"

lemmas demo_defs = demo_engine_def demo_store_def new_step_def new_workflow_def echo_def
  run_outcome_def initial_state_def initial_context_def initial_variables_def empty_context_def
  copy_step_def copy_hook_def

section \<open>Properties of \<open>execute_workflow\<close>\<close>

lemma execute_workflow_unfold:
  assumes "map_of (workflow_templates engine) workflow_id = Some template"
    and "copy_steps (steps template) (objects engine) (next_addr engine) = (addrs, h, n)"
    and "execute_workflow_steps invoke addrs 0 (initial_state h (initial_context ts params)) = (st, raised)"
  shows "\<exists>engine' run.
      execute_workflow invoke new_id tc ts te engine workflow_id params = Inr (engine', new_id)
    \<and> active_workflows engine' = AList.delete new_id (active_workflows engine)
    \<and> completed_workflows engine' = AList.update new_id run (completed_workflows engine)
    \<and> workflow_templates engine' = workflow_templates engine
    \<and> objects engine' = st_store st
    \<and> next_addr engine' = n
    \<and> wf_id run = new_id
    \<and> steps run = addrs
    \<and> wf_status run = (case raised of None \<Rightarrow> WF_COMPLETED | Some e \<Rightarrow> WF_FAILED)
    \<and> wf_context run =
        (case raised of
           None \<Rightarrow> st_context st
         | Some e \<Rightarrow> (st_context st)\<lparr>error_log := error_log (st_context st) @ [RunFailure e]\<rparr>)
        \<lparr>end_time := Some te\<rparr>"
proof -
  let ?ctx = "(case raised of
           None \<Rightarrow> st_context st
         | Some e \<Rightarrow> (st_context st)\<lparr>error_log := error_log (st_context st) @ [RunFailure e]\<rparr>)
        \<lparr>end_time := Some te\<rparr>"
  let ?run = "\<lparr>wf_id = new_id, name = name template, description = description template,
      steps = addrs, wf_context = ?ctx,
      wf_status = (case raised of None \<Rightarrow> WF_COMPLETED | Some e \<Rightarrow> WF_FAILED),
      created_at = tc, tags = tags template, metadata = metadata template\<rparr>"
  let ?engine = "engine
      \<lparr>active_workflows := AList.delete new_id (active_workflows engine),
       completed_workflows := AList.update new_id ?run (completed_workflows engine),
       objects := st_store st, next_addr := n\<rparr>"
  have "execute_workflow invoke new_id tc ts te engine workflow_id params = Inr (?engine, new_id)"
    using assms by (simp add: execute_workflow_def delete_update_same)
  then show ?thesis
    by (intro exI[of _ ?engine] exI[of _ ?run]) simp
qed

text \<open>
  C7.  For a known template id \<open>execute_workflow\<close> returns the id of the run
  whatever the loop does.  When the loop raises (a step failure or a deadlock)
  the run is \<open>Failed\<close> and the exception is the last entry of its error log;
  otherwise the run is \<open>Completed\<close>.  Either way the end timestamp is set, the
  run is in the completed collection and not in the active one, and
  \<open>get_workflow_status\<close> finds it.
\<close>

theorem failure_containment:
  assumes "map_of (workflow_templates engine) workflow_id = Some template"
  shows "\<exists>engine' run report.
      execute_workflow invoke new_id tc ts te engine workflow_id params = Inr (engine', new_id)
    \<and> map_of (active_workflows engine') new_id = None
    \<and> map_of (completed_workflows engine') new_id = Some run
    \<and> end_time (wf_context run) = Some te
    \<and> (case snd (run_outcome invoke engine template ts params) of
          None \<Rightarrow> wf_status run = WF_COMPLETED
        | Some e \<Rightarrow> wf_status run = WF_FAILED
                    \<and> error_log (wf_context run) \<noteq> []
                    \<and> last (error_log (wf_context run)) = RunFailure e)
    \<and> get_workflow_status engine' new_id = Some report
    \<and> report_id report = new_id
    \<and> report_status report = wf_status run
    \<and> report_end_time report = Some te
    \<and> report_error_log report = error_log (wf_context run)"
proof -
  obtain addrs h n where c: "copy_steps (steps template) (objects engine) (next_addr engine) = (addrs, h, n)"
    by (cases "copy_steps (steps template) (objects engine) (next_addr engine)")
  obtain st raised where
    r: "execute_workflow_steps invoke addrs 0 (initial_state h (initial_context ts params)) = (st, raised)"
    by (cases "execute_workflow_steps invoke addrs 0 (initial_state h (initial_context ts params))")
  from c r have ro: "snd (run_outcome invoke engine template ts params) = raised"
    by (simp add: run_outcome_def)
  from execute_workflow_unfold[OF assms c r, of new_id tc te]
  obtain engine' run where
    ew: "execute_workflow invoke new_id tc ts te engine workflow_id params = Inr (engine', new_id)"
    and act: "active_workflows engine' = AList.delete new_id (active_workflows engine)"
    and com: "completed_workflows engine' = AList.update new_id run (completed_workflows engine)"
    and wid: "wf_id run = new_id"
    and wst: "wf_status run = (case raised of None \<Rightarrow> WF_COMPLETED | Some e \<Rightarrow> WF_FAILED)"
    and wctx: "wf_context run =
        (case raised of
           None \<Rightarrow> st_context st
         | Some e \<Rightarrow> (st_context st)\<lparr>error_log := error_log (st_context st) @ [RunFailure e]\<rparr>)
        \<lparr>end_time := Some te\<rparr>"
    by blast
  have a: "map_of (active_workflows engine') new_id = None"
    by (simp add: act delete_conv)
  have b: "map_of (completed_workflows engine') new_id = Some run"
    by (simp add: com update_conv)
  have e: "end_time (wf_context run) = Some te" by (simp add: wctx)
  have o: "(case snd (run_outcome invoke engine template ts params) of
          None \<Rightarrow> wf_status run = WF_COMPLETED
        | Some e \<Rightarrow> wf_status run = WF_FAILED
                    \<and> error_log (wf_context run) \<noteq> []
                    \<and> last (error_log (wf_context run)) = RunFailure e)"
    unfolding ro by (cases raised) (simp_all add: wst wctx)
  let ?report = "the (get_workflow_status engine' new_id)"
  have g: "get_workflow_status engine' new_id = Some ?report"
    by (simp add: get_workflow_status_def a b)
  have g': "report_id ?report = new_id" "report_status ?report = wf_status run"
    "report_end_time ?report = Some te" "report_error_log ?report = error_log (wf_context run)"
    by (simp_all add: get_workflow_status_def a b wid e)
  from ew a b e o g g' show ?thesis by blast
qed

theorem failure_containment_witness:
  "map_of (workflow_templates demo_engine) ''cycle'' = Some (new_workflow ''cycle'' [3, 4])
   \<and> snd (run_outcome echo demo_engine (new_workflow ''cycle'' [3, 4]) 2 None)
       = Some (DeadlockError [''X'', ''Y''])
   \<and> (\<exists>engine' run report.
        execute_workflow echo ''run-1'' 1 2 3 demo_engine ''cycle'' None = Inr (engine', ''run-1'')
      \<and> map_of (active_workflows engine') ''run-1'' = None
      \<and> map_of (completed_workflows engine') ''run-1'' = Some run
      \<and> end_time (wf_context run) = Some 3
      \<and> wf_status run = WF_FAILED
      \<and> last (error_log (wf_context run)) = RunFailure (DeadlockError [''X'', ''Y''])
      \<and> get_workflow_status engine' ''run-1'' = Some report
      \<and> report_status report = WF_FAILED)"
proof -
  have k: "map_of (workflow_templates demo_engine) ''cycle'' = Some (new_workflow ''cycle'' [3, 4])"
    by (simp add: demo_engine_def)
  have o: "snd (run_outcome echo demo_engine (new_workflow ''cycle'' [3, 4]) 2 None)
       = Some (DeadlockError [''X'', ''Y''])"
    by (simp add: demo_defs execute_workflow_steps.simps loop_body_def ready_steps_def
      remaining_steps_def is_ready_def)
  from failure_containment[OF k, of echo "''run-1''" 1 2 3 None]
  obtain engine' run report where
    "execute_workflow echo ''run-1'' 1 2 3 demo_engine ''cycle'' None = Inr (engine', ''run-1'')"
    "map_of (active_workflows engine') ''run-1'' = None"
    "map_of (completed_workflows engine') ''run-1'' = Some run"
    "end_time (wf_context run) = Some 3"
    "wf_status run = WF_FAILED"
    "last (error_log (wf_context run)) = RunFailure (DeadlockError [''X'', ''Y''])"
    "get_workflow_status engine' ''run-1'' = Some report"
    "report_status report = WF_FAILED"
    unfolding o by (simp only: option.case) metis
  with k o show ?thesis by blast
qed

text \<open>Every step of every template is an object that exists: its address has been handed out.\<close>

definition templates_allocated :: "WorkflowEngine \<Rightarrow> bool" where
  "templates_allocated engine \<longleftrightarrow>
     (\<forall>tpl \<in> snd ` set (workflow_templates engine). \<forall>a \<in> set (steps tpl). a < next_addr engine)"

text \<open>
  C8.  A run works on copies at new addresses, so a run leaves every step of
  every template as it was: status, result, error, retry count, parameters and
  dependencies, all fields.  The table of templates is unchanged too, and the
  engine stays well formed, so this holds for every later run as well.
\<close>

theorem template_immutability:
  assumes alloc: "templates_allocated engine"
    and run: "execute_workflow invoke new_id tc ts te engine workflow_id params = Inr (engine', rid)"
    and tpl: "(tid, tpl) \<in> set (workflow_templates engine)"
    and a: "a \<in> set (steps tpl)"
  shows "workflow_templates engine' = workflow_templates engine
       \<and> objects engine' a = objects engine a
       \<and> templates_allocated engine'"
proof -
  from run obtain template where k: "map_of (workflow_templates engine) workflow_id = Some template"
    by (cases "map_of (workflow_templates engine) workflow_id") (simp_all add: execute_workflow_def)
  obtain addrs h n where c: "copy_steps (steps template) (objects engine) (next_addr engine) = (addrs, h, n)"
    by (cases "copy_steps (steps template) (objects engine) (next_addr engine)")
  obtain st raised where
    r: "execute_workflow_steps invoke addrs 0 (initial_state h (initial_context ts params)) = (st, raised)"
    by (cases "execute_workflow_steps invoke addrs 0 (initial_state h (initial_context ts params))")
  from execute_workflow_unfold[OF k c r, of new_id tc te] run
  have t: "workflow_templates engine' = workflow_templates engine"
    and o: "objects engine' = st_store st"
    and n: "next_addr engine' = n"
    by auto
  from copy_steps_spec[OF c]
  have addrs: "addrs = [next_addr engine ..< next_addr engine + length (steps template)]"
    and n': "n = next_addr engine + length (steps template)"
    and old: "\<And>x. x < next_addr engine \<Longrightarrow> h x = objects engine x"
    by auto
  from alloc tpl a have lt: "a < next_addr engine"
    by (force simp: templates_allocated_def)
  then have "a \<notin> set addrs" by (simp add: addrs)
  from execute_workflow_steps_other[OF r this] old[OF lt]
  have "objects engine' a = objects engine a" by (simp add: o initial_state_def)
  moreover from alloc have "templates_allocated engine'"
    unfolding templates_allocated_def t n n' by fastforce
  ultimately show ?thesis using t by simp
qed

theorem template_immutability_witness:
  "templates_allocated demo_engine
   \<and> (''chain'', new_workflow ''chain'' [0, 1, 2]) \<in> set (workflow_templates demo_engine)
   \<and> 1 \<in> set (steps (new_workflow ''chain'' [0, 1, 2]))
   \<and> (\<exists>engine'.
        execute_workflow echo ''run-1'' 1 2 3 demo_engine ''chain'' None = Inr (engine', ''run-1'')
      \<and> objects engine' 1 = objects demo_engine 1
      \<and> status (objects engine' 1) = WAITING
      \<and> status (objects engine' 6) = COMPLETED)"
proof -
  have w: "templates_allocated demo_engine"
    by (simp add: templates_allocated_def demo_engine_def new_workflow_def)
  have m: "(''chain'', new_workflow ''chain'' [0, 1, 2]) \<in> set (workflow_templates demo_engine)"
    by (simp add: demo_engine_def)
  have s: "1 \<in> set (steps (new_workflow ''chain'' [0, 1, 2]))"
    by (simp add: new_workflow_def)
  have k: "map_of (workflow_templates demo_engine) ''chain'' = Some (new_workflow ''chain'' [0, 1, 2])"
    by (simp add: demo_engine_def)
  obtain addrs h n where
    c: "copy_steps (steps (new_workflow ''chain'' [0, 1, 2])) (objects demo_engine) (next_addr demo_engine) = (addrs, h, n)"
    by (cases "copy_steps (steps (new_workflow ''chain'' [0, 1, 2])) (objects demo_engine) (next_addr demo_engine)")
  obtain st raised where
    r: "execute_workflow_steps echo addrs 0 (initial_state h (initial_context 2 None)) = (st, raised)"
    by (cases "execute_workflow_steps echo addrs 0 (initial_state h (initial_context 2 None))")
  from execute_workflow_unfold[OF k c r, of "''run-1''" 1 3]
  obtain engine' where
    e: "execute_workflow echo ''run-1'' 1 2 3 demo_engine ''chain'' None = Inr (engine', ''run-1'')"
    and o: "objects engine' = st_store st" by blast
  from c r have "st = fst (run_outcome echo demo_engine (new_workflow ''chain'' [0, 1, 2]) 2 None)"
    by (simp add: run_outcome_def)
  then have "status (st_store st 6) = COMPLETED"
    by (simp add: demo_defs execute_workflow_steps.simps loop_body_def ready_steps_def
      remaining_steps_def is_ready_def execute_step_def check_step_conditions_def
      process_step_parameters_def Let_def)
  with o have d: "status (objects engine' 6) = COMPLETED" by simp
  from template_immutability[OF w e m s]
  have u: "objects engine' 1 = objects demo_engine 1" by simp
  then have "status (objects engine' 1) = WAITING"
    by (simp add: demo_engine_def demo_store_def new_step_def)
  with w m s e u d show ?thesis by blast
qed

text \<open>
  C9.  The progress of a listed run is the number of its completed steps divided
  by the number of its steps, with no guard: listing an engine that holds a run
  of a workflow without steps raises \<open>ZeroDivisionError\<close>.
\<close>

theorem progress_zero_division:
  "(case execute_workflow echo ''run-1'' 1 2 3 demo_engine ''empty'' None of
      Inl e \<Rightarrow> False
    | Inr (engine', rid) \<Rightarrow>
        map (\<lambda>w. (wf_status w, steps w)) (map snd (completed_workflows engine'))
          = [(WF_COMPLETED, [])]
        \<and> list_workflows engine' None = Inl ZeroDivisionError)"
  by (simp add: execute_workflow_def demo_defs execute_workflow_steps.simps loop_body_def
      list_workflows_def true_div_def count_status_def)

lemma list_entries_progress:
  "list_entries h f ws = Inr entries \<Longrightarrow>
     map progress entries =
       map (\<lambda>w. of_nat (count_status h (steps w) COMPLETED) / of_nat (length (steps w)))
         (filter (\<lambda>w. f = None \<or> f = Some (wf_status w)) ws)"
proof (induction ws arbitrary: entries)
  case Nil
  then show ?case by simp
next
  case (Cons w ws)
  then show ?case
    by (auto simp: true_div_def split: if_splits sum.splits)
qed

section \<open>The states the loop passes through\<close>

text \<open>
  \<open>visits invoke addrs c (t, st)\<close>: the loop started in the configuration \<open>c\<close> (a
  batch number and a state) is at the head of its body with batch number \<open>t\<close> and
  state \<open>st\<close>.
\<close>

inductive visits :: "invoker \<Rightarrow> addr list \<Rightarrow> nat \<times> run_state \<Rightarrow> nat \<times> run_state \<Rightarrow> bool"
  for invoke :: invoker and addrs :: "addr list" and c :: "nat \<times> run_state"
where
  start: "visits invoke addrs c c"
| pass: "visits invoke addrs c (t, st) \<Longrightarrow> loop_body invoke addrs t st = Inr st'
          \<Longrightarrow> visits invoke addrs c (Suc t, st')"

lemma visits_result:
  "visits invoke addrs c c' \<Longrightarrow>
     execute_workflow_steps invoke addrs (fst c') (snd c')
       = execute_workflow_steps invoke addrs (fst c) (snd c)"
proof (induction rule: visits.induct)
  case start
  then show ?case by simp
next
  case (pass t st st')
  have "execute_workflow_steps invoke addrs t st = execute_workflow_steps invoke addrs (Suc t) st'"
    using pass.hyps(2) by (subst execute_workflow_steps.simps) simp
  with pass.IH show ?case by simp
qed

text \<open>
  What holds at the head of the loop body, whatever the step ids are: the
  completed set has no duplicates, and each id in it is the id of a step of the
  workflow whose status is \<open>COMPLETED\<close>.
\<close>

definition completed_ok :: "addr list \<Rightarrow> addr set \<Rightarrow> run_state \<Rightarrow> bool" where
  "completed_ok addrs todo st \<longleftrightarrow>
     distinct (st_completed st) \<and>
     (\<forall>d \<in> set (st_completed st).
        \<exists>b \<in> set addrs. b \<notin> todo \<and> step_id (st_store st b) = d \<and> status (st_store st b) = COMPLETED)"

lemma handle_result_completed_ok:
  assumes "completed_ok addrs (insert a todo) st" and "a \<in> set addrs" and "a \<notin> todo"
    and "handle_result a r st = (st', None)"
  shows "completed_ok addrs todo st'"
proof (cases r)
  case (Inl e)
  with assms(4) have pos: "0 < retry_count (st_store st a)"
    and c: "st_completed st' = st_completed st"
    and s: "\<And>b. b \<noteq> a \<Longrightarrow> st_store st' b = st_store st b"
    by (auto simp: Let_def split: if_splits)
  show ?thesis unfolding completed_ok_def c
  proof (intro conjI ballI)
    show "distinct (st_completed st)" using assms(1) by (simp add: completed_ok_def)
    fix d assume "d \<in> set (st_completed st)"
    with assms(1) obtain b where b: "b \<in> set addrs" "b \<notin> insert a todo"
      "step_id (st_store st b) = d" "status (st_store st b) = COMPLETED"
      unfolding completed_ok_def by blast
    then have "b \<noteq> a" by simp
    with b s[of b] show "\<exists>b\<in>set addrs. b \<notin> todo \<and> step_id (st_store st' b) = d \<and> status (st_store st' b) = COMPLETED"
      by (intro bexI[of _ b]) auto
  qed
next
  case (Inr v)
  with assms(4) have
    c: "st_completed st' = List.insert (step_id (st_store st a)) (st_completed st)"
    and s: "\<And>b. b \<noteq> a \<Longrightarrow> st_store st' b = st_store st b"
    and sa: "step_id (st_store st' a) = step_id (st_store st a)" "status (st_store st' a) = COMPLETED"
    by (auto simp: Let_def)
  show ?thesis unfolding completed_ok_def c
  proof (intro conjI ballI)
    show "distinct (List.insert (step_id (st_store st a)) (st_completed st))"
      using assms(1) by (simp add: completed_ok_def)
    fix d assume d: "d \<in> set (List.insert (step_id (st_store st a)) (st_completed st))"
    show "\<exists>b\<in>set addrs. b \<notin> todo \<and> step_id (st_store st' b) = d \<and> status (st_store st' b) = COMPLETED"
    proof (cases "d \<in> set (st_completed st)")
      case True
      with assms(1) obtain b where b: "b \<in> set addrs" "b \<notin> insert a todo"
        "step_id (st_store st b) = d" "status (st_store st b) = COMPLETED"
        unfolding completed_ok_def by blast
      then have "b \<noteq> a" by simp
      with b s[of b] show ?thesis by (intro bexI[of _ b]) auto
    next
      case False
      with d have "d = step_id (st_store st a)" by simp
      with sa assms(2,3) show ?thesis by (intro bexI[of _ a]) auto
    qed
  qed
qed

lemma handle_results_completed_ok:
  assumes "completed_ok addrs (fst ` set rs) st" and "fst ` set rs \<subseteq> set addrs"
    and "distinct (map fst rs)" and "handle_results rs st = (st', None)"
  shows "completed_ok addrs {} st'"
  using assms
proof (induction rs arbitrary: st)
  case Nil
  then show ?case by simp
next
  case (Cons p rs)
  obtain a r where p: "p = (a, r)" by (cases p)
  obtain st1 e1 where h: "handle_result a r st = (st1, e1)" by (cases "handle_result a r st")
  with Cons.prems(4) p have e1: "e1 = None" and hr: "handle_results rs st1 = (st', None)"
    by (auto split: option.splits)
  from Cons.prems(3) p have na: "a \<notin> fst ` set rs" and d: "distinct (map fst rs)" by auto
  from Cons.prems(2) p have a: "a \<in> set addrs" and sub: "fst ` set rs \<subseteq> set addrs" by auto
  from Cons.prems(1) p have "completed_ok addrs (insert a (fst ` set rs)) st" by simp
  from handle_result_completed_ok[OF this a na h[unfolded e1]]
  have "completed_ok addrs (fst ` set rs) st1" .
  from Cons.IH[OF this sub d hr] show ?case .
qed

lemma loop_body_completed_ok:
  assumes inv: "completed_ok addrs {} st" and d: "distinct addrs"
    and body: "loop_body invoke addrs t st = Inr st'"
  shows "completed_ok addrs {} st'"
  using body
proof (cases rule: loop_body_cases)
  case (batch h results st1 exc)
  let ?ready = "ready_steps addrs st"
  from batch(5) have exc: "exc = None" and st1: "st1 = st'" by (auto split: option.splits)
  have len: "length results = length ?ready"
    using run_tasks_frame[OF batch(3)] by simp
  then have fst_zip: "map fst (zip ?ready results) = ?ready" by simp
  have rsub: "set ?ready \<subseteq> set addrs" by (auto simp: ready_steps_def)
  have rd: "distinct ?ready" using d by (simp add: ready_steps_def)
  have "completed_ok addrs (set ?ready) (st\<lparr>st_store := h\<rparr>)"
    unfolding completed_ok_def
  proof (intro conjI ballI)
    show "distinct (st_completed (st\<lparr>st_store := h\<rparr>))" using inv by (simp add: completed_ok_def)
    fix dd assume "dd \<in> set (st_completed (st\<lparr>st_store := h\<rparr>))"
    with inv obtain b where b: "b \<in> set addrs" "step_id (st_store st b) = dd"
      "status (st_store st b) = COMPLETED"
      unfolding completed_ok_def by auto
    then have nr: "b \<notin> set ?ready" by (auto simp: ready_steps_def is_ready_def Let_def)
    from run_tasks_other[OF batch(3) nr] have "h b = st_store st b" .
    with b nr show "\<exists>b\<in>set addrs. b \<notin> set ?ready \<and> step_id (st_store (st\<lparr>st_store := h\<rparr>) b) = dd
        \<and> status (st_store (st\<lparr>st_store := h\<rparr>) b) = COMPLETED"
      by (intro bexI[of _ b]) auto
  qed
  moreover have "fst ` set (zip ?ready results) = set ?ready"
    using fst_zip by (metis set_map)
  ultimately have "completed_ok addrs (fst ` set (zip ?ready results)) (st\<lparr>st_store := h\<rparr>)" by simp
  moreover have "fst ` set (zip ?ready results) \<subseteq> set addrs"
    using \<open>fst ` set (zip ?ready results) = set ?ready\<close> rsub by simp
  moreover have "distinct (map fst (zip ?ready results))" using fst_zip rd by simp
  ultimately show ?thesis
    using batch(4) unfolding exc st1 by (rule handle_results_completed_ok)
qed simp_all

lemma visits_completed_ok:
  assumes "visits invoke addrs c c'" and "completed_ok addrs {} (snd c)" and "distinct addrs"
  shows "completed_ok addrs {} (snd c')"
  using assms
proof (induction rule: visits.induct)
  case start
  then show ?case by simp
next
  case (pass t st st')
  then have "completed_ok addrs {} st" by simp
  from loop_body_completed_ok[OF this pass.prems(2) pass.hyps(2)] show ?case by simp
qed

lemma completed_ok_initial: "completed_ok addrs {} (initial_state h ctx)"
  by (simp add: completed_ok_def initial_state_def)

lemma copy_steps_distinct: "copy_steps as h n = (bs, h', n') \<Longrightarrow> distinct bs"
  by (drule copy_steps_spec) simp

lemma remaining_length:
  assumes ok: "completed_ok addrs {} st" and rem: "remaining_steps addrs st \<noteq> []"
  shows "length (st_completed st) < length addrs"
proof -
  let ?f = "\<lambda>a. step_id (st_store st a)"
  from rem obtain a where a: "a \<in> set addrs" "?f a \<notin> set (st_completed st)"
    by (auto simp: remaining_steps_def filter_empty_conv)
  from ok have sub: "set (st_completed st) \<subseteq> ?f ` set addrs"
    by (auto simp: completed_ok_def)
  with a have "set (st_completed st) \<subset> ?f ` set addrs" by blast
  then have "card (set (st_completed st)) < card (?f ` set addrs)"
    by (intro psubset_card_mono) simp_all
  also have "\<dots> \<le> card (set addrs)" by (rule card_image_le) simp
  also have "\<dots> \<le> length addrs" by (rule card_length)
  finally show ?thesis using ok by (simp add: completed_ok_def distinct_card)
qed

text \<open>
  C2.  When the loop of a run reaches a pass in which no step is ready while
  some step is not completed, the run ends \<open>Failed\<close>; the last entry of its
  error log is the deadlock error, and the ids this error names are the ids of
  all the steps that are not completed.
\<close>

theorem deadlock_detection:
  assumes k: "map_of (workflow_templates engine) workflow_id = Some template"
    and c: "copy_steps (steps template) (objects engine) (next_addr engine) = (addrs, h, n)"
    and v: "visits invoke addrs (0, initial_state h (initial_context ts params)) (t, st)"
    and nr: "ready_steps addrs st = []"
    and rem: "remaining_steps addrs st \<noteq> []"
  shows "\<exists>engine' run.
      execute_workflow invoke new_id tc ts te engine workflow_id params = Inr (engine', new_id)
    \<and> map_of (completed_workflows engine') new_id = Some run
    \<and> wf_status run = WF_FAILED
    \<and> error_log (wf_context run) =
        error_log (st_context st)
          @ [RunFailure (DeadlockError (map (\<lambda>a. step_id (st_store st a)) (remaining_steps addrs st)))]
    \<and> set (map (\<lambda>a. step_id (st_store st a)) (remaining_steps addrs st))
        = {step_id (st_store st a) |a. a \<in> set addrs \<and> step_id (st_store st a) \<notin> set (st_completed st)}"
proof -
  let ?e = "DeadlockError (map (\<lambda>a. step_id (st_store st a)) (remaining_steps addrs st))"
  from visits_completed_ok[OF v] copy_steps_distinct[OF c]
  have ok: "completed_ok addrs {} st" by (simp add: completed_ok_initial)
  from remaining_length[OF ok rem] nr rem
  have "loop_body invoke addrs t st = Inl (st, Some ?e)" by (simp add: loop_body_def)
  then have "execute_workflow_steps invoke addrs t st = (st, Some ?e)"
    by (subst execute_workflow_steps.simps) simp
  with visits_result[OF v]
  have r: "execute_workflow_steps invoke addrs 0 (initial_state h (initial_context ts params)) = (st, Some ?e)"
    by simp
  from execute_workflow_unfold[OF k c r, of new_id tc te]
  obtain engine' run where
    ew: "execute_workflow invoke new_id tc ts te engine workflow_id params = Inr (engine', new_id)"
    and com: "completed_workflows engine' = AList.update new_id run (completed_workflows engine)"
    and wst: "wf_status run = WF_FAILED"
    and wctx: "wf_context run =
        (st_context st)\<lparr>error_log := error_log (st_context st) @ [RunFailure ?e]\<rparr>\<lparr>end_time := Some te\<rparr>"
    by auto
  have "map_of (completed_workflows engine') new_id = Some run" by (simp add: com update_conv)
  moreover have "error_log (wf_context run) = error_log (st_context st) @ [RunFailure ?e]"
    by (simp add: wctx)
  moreover have "set (map (\<lambda>a. step_id (st_store st a)) (remaining_steps addrs st))
        = {step_id (st_store st a) |a. a \<in> set addrs \<and> step_id (st_store st a) \<notin> set (st_completed st)}"
    by (auto simp: remaining_steps_def)
  ultimately show ?thesis using ew wst by blast
qed

theorem deadlock_detection_witness:
  "map_of (workflow_templates demo_engine) ''cycle'' = Some (new_workflow ''cycle'' [3, 4])
   \<and> (\<exists>addrs h n.
        copy_steps (steps (new_workflow ''cycle'' [3, 4])) (objects demo_engine) (next_addr demo_engine)
          = (addrs, h, n)
      \<and> visits echo addrs (0, initial_state h (initial_context 2 None))
          (0, initial_state h (initial_context 2 None))
      \<and> ready_steps addrs (initial_state h (initial_context 2 None)) = []
      \<and> remaining_steps addrs (initial_state h (initial_context 2 None)) = [5, 6])
   \<and> (\<exists>engine' run.
        execute_workflow echo ''run-1'' 1 2 3 demo_engine ''cycle'' None = Inr (engine', ''run-1'')
      \<and> map_of (completed_workflows engine') ''run-1'' = Some run
      \<and> wf_status run = WF_FAILED
      \<and> error_log (wf_context run) = [RunFailure (DeadlockError [''X'', ''Y''])])"
proof -
  have k: "map_of (workflow_templates demo_engine) ''cycle'' = Some (new_workflow ''cycle'' [3, 4])"
    by (simp add: demo_engine_def)
  obtain addrs h n where
    c: "copy_steps (steps (new_workflow ''cycle'' [3, 4])) (objects demo_engine) (next_addr demo_engine)
          = (addrs, h, n)"
    by (cases "copy_steps (steps (new_workflow ''cycle'' [3, 4])) (objects demo_engine) (next_addr demo_engine)")
  let ?st = "initial_state h (initial_context 2 None)"
  have v: "visits echo addrs (0, ?st) (0, ?st)" by (rule visits.start)
  from c have nr: "ready_steps addrs ?st = []" and rem: "remaining_steps addrs ?st = [5, 6]"
    and ids: "map (\<lambda>a. step_id (st_store ?st a)) [5, 6] = [''X'', ''Y'']"
    and log: "error_log (st_context ?st) = []"
    by (auto simp: demo_defs ready_steps_def remaining_steps_def is_ready_def)
  from rem have rem': "remaining_steps addrs ?st \<noteq> []" by simp
  from deadlock_detection[OF k c v nr rem', of "''run-1''" 1 3]
  obtain engine' run where
    "execute_workflow echo ''run-1'' 1 2 3 demo_engine ''cycle'' None = Inr (engine', ''run-1'')"
    "map_of (completed_workflows engine') ''run-1'' = Some run"
    "wf_status run = WF_FAILED"
    "error_log (wf_context run) = [RunFailure (DeadlockError [''X'', ''Y''])]"
    unfolding rem ids log by auto
  with k c v nr rem show ?thesis by blast
qed

lemmas run_defs = execute_workflow_steps.simps loop_body_def ready_steps_def
  remaining_steps_def is_ready_def execute_step_def check_step_conditions_def
  process_step_parameters_def Let_def

section \<open>What one pass of the loop writes\<close>

text \<open>The state in which a pass through the loop body leaves the run.\<close>

definition state_after :: "(run_state \<times> exn option) + run_state \<Rightarrow> run_state" where
  "state_after res = (case res of Inl (st', exc) \<Rightarrow> st' | Inr st' \<Rightarrow> st')"

text \<open>
  The tasks of a batch are the only code that sets a status to \<open>RUNNING\<close>, and
  the loop over their results the only other code that writes to a step.  So the
  steps that a pass starts are the steps that it writes to: a pass leaves every
  step alone that is not in its batch, and it leaves no step of its batch as it
  was.
\<close>

lemma pass_untouched:
  assumes "loop_body invoke addrs t st = res" and nr: "x \<notin> set (ready_steps addrs st)"
  shows "st_store (state_after res) x = st_store st x"
  using assms(1)
proof (cases rule: loop_body_cases)
  case finished
  then show ?thesis by (simp add: state_after_def)
next
  case deadlock
  then show ?thesis by (simp add: state_after_def)
next
  case (batch h results st' exc)
  from run_tasks_other[OF batch(3) nr] have 1: "h x = st_store st x" .
  have "x \<notin> fst ` set (zip (ready_steps addrs st) results)"
    using nr by (auto dest: set_zip_leftD)
  from handle_results_other[OF batch(4) this] 1 have "st_store st' x = st_store st x" by simp
  with batch(5) show ?thesis by (cases exc) (simp_all add: state_after_def)
qed

lemma run_tasks_store:
  "run_tasks invoke t ctx as h = (h', rs) \<Longrightarrow> distinct as \<Longrightarrow> a \<in> set as \<Longrightarrow>
     h' a = fst (execute_step invoke t (h a) ctx)"
proof (induction as arbitrary: h h' rs)
  case Nil
  then show ?case by simp
next
  case (Cons b as)
  obtain s r where e: "execute_step invoke t (h b) ctx = (s, r)" by (cases "execute_step invoke t (h b) ctx")
  obtain h1 rs1 where r: "run_tasks invoke t ctx as (h(b := s)) = (h1, rs1)"
    by (cases "run_tasks invoke t ctx as (h(b := s))")
  from Cons.prems(1) e r have eq: "h' = h1" by auto
  from Cons.prems(2) have d: "distinct as" and nb: "b \<notin> set as" by auto
  show ?case
  proof (cases "a = b")
    case True
    from run_tasks_other[OF r nb] e True eq show ?thesis by simp
  next
    case False
    with Cons.prems(3) have "a \<in> set as" by simp
    from Cons.IH[OF r d this] False eq show ?thesis by simp
  qed
qed

lemma handle_result_store:
  "st_store st1 a = st_store st a \<Longrightarrow>
     st_store (fst (handle_result a r st1)) a = st_store (fst (handle_result a r st)) a"
  by (cases r) (simp_all add: Let_def)

text \<open>
  The loop over the results either has not reached an entry when it is left, or
  has run its body for the entry.
\<close>

lemma handle_results_at:
  assumes "handle_results rs st = (st', exc)" and "distinct (map fst rs)" and "(a, r) \<in> set rs"
  shows "st_store st' a = st_store st a
       \<or> st_store st' a = st_store (fst (handle_result a r st)) a"
  using assms
proof (induction rs arbitrary: st)
  case Nil
  then show ?case by simp
next
  case (Cons p rs)
  obtain b rb where p: "p = (b, rb)" by (cases p)
  obtain st1 e1 where h: "handle_result b rb st = (st1, e1)" by (cases "handle_result b rb st")
  from Cons.prems(2) p have nb: "b \<notin> fst ` set rs" and d: "distinct (map fst rs)" by auto
  show ?case
  proof (cases "(a, r) = p")
    case True
    with p have eq: "a = b" "r = rb" by simp_all
    show ?thesis
    proof (cases e1)
      case None
      with Cons.prems(1) p h have "handle_results rs st1 = (st', exc)" by simp
      from handle_results_other[OF this nb] h eq show ?thesis by simp
    next
      case (Some e)
      with Cons.prems(1) p h have "st' = st1" by simp
      with h eq show ?thesis by simp
    qed
  next
    case False
    with Cons.prems(3) have m: "(a, r) \<in> set rs" by simp
    with nb have "a \<noteq> b" by force
    from handle_result_other[OF h this] have same: "st_store st1 a = st_store st a" .
    show ?thesis
    proof (cases e1)
      case None
      with Cons.prems(1) p h have "handle_results rs st1 = (st', exc)" by simp
      from Cons.IH[OF this d m] same handle_result_store[OF same, of r] show ?thesis by auto
    next
      case (Some e)
      with Cons.prems(1) p h have "st' = st1" by simp
      with same show ?thesis by simp
    qed
  qed
qed

lemma handle_result_written:
  "status (st_store (fst (handle_result a r st)) a) = COMPLETED
   \<or> status (st_store (fst (handle_result a r st)) a) = FAILED
   \<or> retry_count (st_store (fst (handle_result a r st)) a) = retry_count (st_store st a) - 1"
  by (cases r) (simp_all add: Let_def)

lemma pass_written:
  assumes lb: "loop_body invoke addrs t st = res"
    and d: "distinct addrs" and a: "a \<in> set (ready_steps addrs st)"
    and lt: "length (st_completed st) < length addrs"
  shows "st_store (state_after res) a \<noteq> st_store st a"
  using lb
proof (cases rule: loop_body_cases)
  case finished
  from a have "ready_steps addrs st \<noteq> []" by auto
  with finished lb lt show ?thesis by (simp add: loop_body_def Let_def split: prod.splits option.splits)
next
  case deadlock
  with a show ?thesis by simp
next
  case (batch h results st' exc)
  let ?ready = "ready_steps addrs st"
  from a have w: "status (st_store st a) = WAITING" by (simp add: ready_steps_def is_ready_def Let_def)
  from d have rd: "distinct ?ready" by (simp add: ready_steps_def)
  from run_tasks_store[OF batch(3) rd a]
  have ha: "h a = fst (execute_step invoke t (st_store st a) (st_context st))" .
  with execute_step_status[of invoke t "st_store st a" "st_context st"]
    execute_step_frame(2)[of invoke t "st_store st a" "st_context st"]
  have hs: "status (h a) \<noteq> WAITING" and hr: "retry_count (h a) = retry_count (st_store st a)" by simp_all
  have len: "length results = length ?ready" using run_tasks_frame[OF batch(3)] by simp
  then have fz: "map fst (zip ?ready results) = ?ready" by simp
  with rd have dz: "distinct (map fst (zip ?ready results))" by simp
  from a fz obtain r where m: "(a, r) \<in> set (zip ?ready results)"
    by (metis (no_types, lifting) imageE prod.collapse set_map)
  let ?s = "st\<lparr>st_store := h\<rparr>"
  from handle_results_at[OF batch(4) dz m]
  have "st_store st' a = h a \<or> st_store st' a = st_store (fst (handle_result a r ?s)) a" by simp
  moreover from handle_result_written[of a r ?s] hr
  have "status (st_store (fst (handle_result a r ?s)) a) = COMPLETED
      \<or> status (st_store (fst (handle_result a r ?s)) a) = FAILED
      \<or> retry_count (st_store (fst (handle_result a r ?s)) a) = retry_count (st_store st a) - 1"
    by simp
  ultimately have "st_store st' a \<noteq> st_store st a" using hs w by auto
  with batch(5) show ?thesis by (cases exc) (simp_all add: state_after_def)
qed

text \<open>
  C1.  In every pass of the loop of a run, a step that the pass writes to, that
  is a step that the pass starts, was \<open>WAITING\<close> and in the batch of the pass,
  and every dependency of it is in the completed set and is the id of a step of
  the run whose status is \<open>COMPLETED\<close> before the pass and after it.
\<close>

theorem dependency_gating:
  assumes c: "copy_steps (steps template) (objects engine) (next_addr engine) = (addrs, h, n)"
    and v: "visits invoke addrs (0, initial_state h ctx) (t, st)"
    and started: "st_store (state_after (loop_body invoke addrs t st)) a \<noteq> st_store st a"
    and dep: "dep \<in> set (dependencies (st_store st a))"
  shows "a \<in> set (ready_steps addrs st) \<and> status (st_store st a) = WAITING
       \<and> dep \<in> set (st_completed st)
       \<and> (\<exists>b \<in> set addrs. step_id (st_store st b) = dep
             \<and> status (st_store st b) = COMPLETED
             \<and> status (st_store (state_after (loop_body invoke addrs t st)) b) = COMPLETED)"
proof -
  from visits_completed_ok[OF v] copy_steps_distinct[OF c]
  have ok: "completed_ok addrs {} st" by (simp add: completed_ok_initial)
  have r: "a \<in> set (ready_steps addrs st)"
  proof (rule ccontr)
    assume "a \<notin> set (ready_steps addrs st)"
    from pass_untouched[OF refl this] started show False by simp
  qed
  then have w: "status (st_store st a) = WAITING"
    by (simp add: ready_steps_def is_ready_def Let_def)
  from r dep have d: "dep \<in> set (st_completed st)"
    by (auto simp: ready_steps_def is_ready_def Let_def)
  with ok obtain b where b: "b \<in> set addrs" "step_id (st_store st b) = dep"
    "status (st_store st b) = COMPLETED"
    unfolding completed_ok_def by auto
  then have "b \<notin> set (ready_steps addrs st)" by (auto simp: ready_steps_def is_ready_def Let_def)
  from pass_untouched[OF refl this, of invoke t] b
  have "status (st_store (state_after (loop_body invoke addrs t st)) b) = COMPLETED" by simp
  with r w d b show ?thesis by blast
qed

theorem dependency_gating_witness:
  "\<exists>addrs h n st.
     copy_steps (steps (new_workflow ''chain'' [0, 1, 2])) (objects demo_engine) (next_addr demo_engine)
       = (addrs, h, n)
   \<and> visits echo addrs (0, initial_state h (initial_context 2 None)) (1, st)
   \<and> st_store (state_after (loop_body echo addrs 1 st)) 6 \<noteq> st_store st 6
   \<and> step_id (st_store st 6) = ''B''
   \<and> status (st_store (state_after (loop_body echo addrs 1 st)) 6) = COMPLETED
   \<and> ''A'' \<in> set (dependencies (st_store st 6))
   \<and> 6 \<in> set (ready_steps addrs st) \<and> status (st_store st 6) = WAITING
   \<and> ''A'' \<in> set (st_completed st)
   \<and> (\<exists>b \<in> set addrs. step_id (st_store st b) = ''A''
         \<and> status (st_store st b) = COMPLETED
         \<and> status (st_store (state_after (loop_body echo addrs 1 st)) b) = COMPLETED)"
proof -
  obtain addrs h n where
    c: "copy_steps (steps (new_workflow ''chain'' [0, 1, 2])) (objects demo_engine) (next_addr demo_engine)
          = (addrs, h, n)"
    by (cases "copy_steps (steps (new_workflow ''chain'' [0, 1, 2])) (objects demo_engine) (next_addr demo_engine)")
  let ?st0 = "initial_state h (initial_context 2 None)"
  define st where "st = projr (loop_body echo addrs 0 ?st0)"
  from c have b: "loop_body echo addrs 0 ?st0 = Inr st"
    and r: "ready_steps addrs st = [6]"
    and l: "length (st_completed st) < length addrs"
    and s: "status (st_store st 6) = WAITING"
    and i: "step_id (st_store st 6) = ''B''"
    and d: "''A'' \<in> set (dependencies (st_store st 6))"
    and cn: "conditions (st_store st 6) = []"
    unfolding st_def by (auto simp: demo_defs run_defs)
  from r l cn have s': "status (st_store (state_after (loop_body echo addrs 1 st)) 6) = COMPLETED"
    by (simp add: loop_body_def state_after_def execute_step_def check_step_conditions_def
        echo_def Let_def)
  from visits.pass[OF visits.start b] have v: "visits echo addrs (0, ?st0) (1, st)" by simp
  from s s' have ch: "st_store (state_after (loop_body echo addrs 1 st)) 6 \<noteq> st_store st 6" by auto
  from dependency_gating[OF c v ch d] c v ch d i s' show ?thesis by blast
qed

section \<open>Runs of workflows with distinct step ids\<close>

text \<open>
  With distinct step ids, at the head of the loop body a step whose id is in the
  completed set is \<open>COMPLETED\<close> and has its entry in \<open>step_results\<close>, and every
  other step is \<open>WAITING\<close>.  Inside the loop over the results this holds for the
  steps that are not in \<open>todo\<close>, the steps still to be handled, and these are not
  completed.
\<close>

definition settled :: "addr list \<Rightarrow> addr set \<Rightarrow> run_state \<Rightarrow> bool" where
  "settled addrs todo st \<longleftrightarrow>
     (\<forall>a \<in> set addrs.
        if a \<in> todo then step_id (st_store st a) \<notin> set (st_completed st)
        else if step_id (st_store st a) \<in> set (st_completed st)
          then status (st_store st a) = COMPLETED
               \<and> map_of (step_results (st_context st)) (step_id (st_store st a)) \<noteq> None
          else status (st_store st a) = WAITING)"

definition distinct_ids :: "addr list \<Rightarrow> store \<Rightarrow> bool" where
  "distinct_ids addrs h \<longleftrightarrow> distinct (map (\<lambda>a. step_id (h a)) addrs)"

lemma distinct_ids_neq:
  "distinct_ids addrs h \<Longrightarrow> a \<in> set addrs \<Longrightarrow> b \<in> set addrs \<Longrightarrow> a \<noteq> b
     \<Longrightarrow> step_id (h a) \<noteq> step_id (h b)"
  unfolding distinct_ids_def by (metis distinct_map inj_on_def)

lemma distinct_ids_cong:
  "(\<And>x. step_id (h' x) = step_id (h x)) \<Longrightarrow> distinct_ids addrs h' = distinct_ids addrs h"
  by (simp add: distinct_ids_def)

lemma handle_result_settled:
  assumes s: "settled addrs (insert a todo) st" and a: "a \<in> set addrs" and na: "a \<notin> todo"
    and ids: "distinct_ids addrs (st_store st)"
    and h: "handle_result a r st = (st', None)"
  shows "settled addrs todo st'"
proof (cases r)
  case (Inl e)
  with h have pos: "0 < retry_count (st_store st a)"
    and c: "st_completed st' = st_completed st"
    and o: "\<And>b. b \<noteq> a \<Longrightarrow> st_store st' b = st_store st b"
    and sa: "step_id (st_store st' a) = step_id (st_store st a)" "status (st_store st' a) = WAITING"
    and res: "step_results (st_context st') = step_results (st_context st)"
    by (auto simp: Let_def split: if_splits)
  show ?thesis unfolding settled_def
  proof
    fix b assume b: "b \<in> set addrs"
    show "if b \<in> todo then step_id (st_store st' b) \<notin> set (st_completed st')
        else if step_id (st_store st' b) \<in> set (st_completed st')
          then status (st_store st' b) = COMPLETED
               \<and> map_of (step_results (st_context st')) (step_id (st_store st' b)) \<noteq> None
          else status (st_store st' b) = WAITING"
    proof (cases "b = a")
      case True
      from s a have "step_id (st_store st a) \<notin> set (st_completed st)" by (auto simp: settled_def)
      with True na sa c show ?thesis by simp
    next
      case False
      with s b have "if b \<in> todo then step_id (st_store st b) \<notin> set (st_completed st)
        else if step_id (st_store st b) \<in> set (st_completed st)
          then status (st_store st b) = COMPLETED
               \<and> map_of (step_results (st_context st)) (step_id (st_store st b)) \<noteq> None
          else status (st_store st b) = WAITING"
        unfolding settled_def by (auto split: if_splits)
      with False show ?thesis by (simp add: o c res)
    qed
  qed
next
  case (Inr v)
  let ?i = "step_id (st_store st a)"
  from Inr h have
    c: "st_completed st' = List.insert ?i (st_completed st)"
    and o: "\<And>b. b \<noteq> a \<Longrightarrow> st_store st' b = st_store st b"
    and sa: "step_id (st_store st' a) = ?i" "status (st_store st' a) = COMPLETED"
    and res: "step_results (st_context st') = AList.update ?i v (step_results (st_context st))"
    by (auto simp: Let_def)
  show ?thesis unfolding settled_def
  proof
    fix b assume b: "b \<in> set addrs"
    show "if b \<in> todo then step_id (st_store st' b) \<notin> set (st_completed st')
        else if step_id (st_store st' b) \<in> set (st_completed st')
          then status (st_store st' b) = COMPLETED
               \<and> map_of (step_results (st_context st')) (step_id (st_store st' b)) \<noteq> None
          else status (st_store st' b) = WAITING"
    proof (cases "b = a")
      case True
      with na sa c res show ?thesis by (simp add: update_conv)
    next
      case False
      from distinct_ids_neq[OF ids b a False] have ne: "step_id (st_store st b) \<noteq> ?i" .
      from False s b have "if b \<in> todo then step_id (st_store st b) \<notin> set (st_completed st)
        else if step_id (st_store st b) \<in> set (st_completed st)
          then status (st_store st b) = COMPLETED
               \<and> map_of (step_results (st_context st)) (step_id (st_store st b)) \<noteq> None
          else status (st_store st b) = WAITING"
        unfolding settled_def by (auto split: if_splits)
      with False ne show ?thesis by (simp add: o c res update_conv)
    qed
  qed
qed

lemma handle_results_settled:
  assumes "settled addrs (fst ` set rs) st" and "fst ` set rs \<subseteq> set addrs"
    and "distinct (map fst rs)" and "distinct_ids addrs (st_store st)"
    and "handle_results rs st = (st', None)"
  shows "settled addrs {} st'"
  using assms
proof (induction rs arbitrary: st)
  case Nil
  then show ?case by simp
next
  case (Cons p rs)
  obtain a r where p: "p = (a, r)" by (cases p)
  obtain st1 e1 where h: "handle_result a r st = (st1, e1)" by (cases "handle_result a r st")
  with Cons.prems(5) p have e1: "e1 = None" and hr: "handle_results rs st1 = (st', None)"
    by (auto split: option.splits)
  from Cons.prems(3) p have na: "a \<notin> fst ` set rs" and d: "distinct (map fst rs)" by auto
  from Cons.prems(2) p have a: "a \<in> set addrs" and sub: "fst ` set rs \<subseteq> set addrs" by auto
  from Cons.prems(1) p have "settled addrs (insert a (fst ` set rs)) st" by simp
  from handle_result_settled[OF this a na Cons.prems(4) h[unfolded e1]]
  have 1: "settled addrs (fst ` set rs) st1" .
  have "distinct_ids addrs (st_store st1) = distinct_ids addrs (st_store st)"
    using handle_result_frame(1)[OF h] by (rule distinct_ids_cong)
  with Cons.prems(4) have 2: "distinct_ids addrs (st_store st1)" by simp
  from Cons.IH[OF 1 sub d 2 hr] show ?case .
qed

lemma loop_body_ids:
  assumes "loop_body invoke addrs t st = Inr st'"
  shows "step_id (st_store st' x) = step_id (st_store st x)"
  using assms
proof (cases rule: loop_body_cases)
  case (batch h results st1 exc)
  then have "st1 = st'" by (auto split: option.splits)
  with run_tasks_frame[OF batch(3), of x] handle_results_frame[OF batch(4), of x]
  show ?thesis by simp
qed simp_all

lemma loop_body_settled:
  assumes s: "settled addrs {} st" and ids: "distinct_ids addrs (st_store st)"
    and body: "loop_body invoke addrs t st = Inr st'"
  shows "settled addrs {} st'"
  using body
proof (cases rule: loop_body_cases)
  case (batch h results st1 exc)
  let ?ready = "ready_steps addrs st"
  from batch(5) have exc: "exc = None" and st1: "st1 = st'" by (auto split: option.splits)
  have len: "length results = length ?ready" using run_tasks_frame[OF batch(3)] by simp
  then have fst_zip: "map fst (zip ?ready results) = ?ready" by simp
  then have img: "fst ` set (zip ?ready results) = set ?ready" by (metis set_map)
  have rsub: "set ?ready \<subseteq> set addrs" by (auto simp: ready_steps_def)
  from ids have "distinct addrs" by (simp add: distinct_ids_def distinct_map)
  then have rd: "distinct ?ready" by (simp add: ready_steps_def)
  have hid: "\<And>x. step_id (h x) = step_id (st_store st x)" using run_tasks_frame[OF batch(3)] by simp
  have "settled addrs (set ?ready) (st\<lparr>st_store := h\<rparr>)"
    unfolding settled_def
  proof
    fix b assume b: "b \<in> set addrs"
    show "if b \<in> set ?ready
        then step_id (st_store (st\<lparr>st_store := h\<rparr>) b) \<notin> set (st_completed (st\<lparr>st_store := h\<rparr>))
        else if step_id (st_store (st\<lparr>st_store := h\<rparr>) b) \<in> set (st_completed (st\<lparr>st_store := h\<rparr>))
          then status (st_store (st\<lparr>st_store := h\<rparr>) b) = COMPLETED
               \<and> map_of (step_results (st_context (st\<lparr>st_store := h\<rparr>)))
                    (step_id (st_store (st\<lparr>st_store := h\<rparr>) b)) \<noteq> None
          else status (st_store (st\<lparr>st_store := h\<rparr>) b) = WAITING"
    proof (cases "b \<in> set ?ready")
      case True
      then show ?thesis by (simp add: hid) (simp add: ready_steps_def is_ready_def Let_def)
    next
      case False
      from run_tasks_other[OF batch(3) False] have "h b = st_store st b" .
      with False s b show ?thesis by (auto simp: settled_def)
    qed
  qed
  with img have 1: "settled addrs (fst ` set (zip ?ready results)) (st\<lparr>st_store := h\<rparr>)" by simp
  have 2: "fst ` set (zip ?ready results) \<subseteq> set addrs" using img rsub by simp
  have 3: "distinct (map fst (zip ?ready results))" using fst_zip rd by simp
  have 4: "distinct_ids addrs (st_store (st\<lparr>st_store := h\<rparr>))"
    using ids distinct_ids_cong[of h "st_store st" addrs] hid by simp
  from handle_results_settled[OF 1 2 3 4 batch(4)[unfolded exc st1]] show ?thesis .
qed simp_all

lemma loop_body_end:
  assumes "loop_body invoke addrs t st = Inl (st', None)" and "completed_ok addrs {} st"
  shows "st' = st \<and> remaining_steps addrs st = []"
  using assms(1)
proof (cases rule: loop_body_cases)
  case finished
  then have eq: "st' = st" by simp
  show ?thesis
  proof (rule ccontr)
    assume "\<not> (st' = st \<and> remaining_steps addrs st = [])"
    with eq have rem: "remaining_steps addrs st \<noteq> []" by simp
    from remaining_length[OF assms(2) rem] have lt: "length (st_completed st) < length addrs" .
    have "set (ready_steps addrs st) \<subseteq> set (remaining_steps addrs st)"
      by (auto simp: ready_steps_def remaining_steps_def is_ready_def Let_def)
    show False
    proof (cases "ready_steps addrs st = []")
      case True
      with lt rem assms(1) show False by (simp add: loop_body_def)
    next
      case False
      with lt assms(1) show False
        by (auto simp: loop_body_def Let_def split: prod.splits option.splits)
    qed
  qed
next
  case (batch h results st1 exc)
  then show ?thesis by (cases exc) simp_all
qed simp_all

lemma completed_run_settled:
  "execute_workflow_steps invoke addrs t st = (st', None) \<Longrightarrow> settled addrs {} st
     \<Longrightarrow> completed_ok addrs {} st \<Longrightarrow> distinct_ids addrs (st_store st)
     \<Longrightarrow> settled addrs {} st' \<and> remaining_steps addrs st' = []"
proof (induction invoke addrs t st rule: execute_workflow_steps.induct)
  case (1 invoke addrs t st)
  show ?case
  proof (cases "loop_body invoke addrs t st")
    case (Inl outcome)
    with "1.prems"(1) have "loop_body invoke addrs t st = Inl (st', None)"
      by (simp add: execute_workflow_steps.simps)
    from loop_body_end[OF this "1.prems"(3)] "1.prems"(2) show ?thesis by simp
  next
    case (Inr st1)
    with "1.prems"(1) have r: "execute_workflow_steps invoke addrs (Suc t) st1 = (st', None)"
      by (simp add: execute_workflow_steps.simps)
    have s: "settled addrs {} st1" using loop_body_settled[OF "1.prems"(2,4) Inr] .
    from "1.prems"(4) have "distinct addrs" by (simp add: distinct_ids_def distinct_map)
    from loop_body_completed_ok[OF "1.prems"(3) this Inr] have c: "completed_ok addrs {} st1" .
    have "distinct_ids addrs (st_store st1) = distinct_ids addrs (st_store st)"
      using loop_body_ids[OF Inr] by (rule distinct_ids_cong)
    with "1.prems"(4) have d: "distinct_ids addrs (st_store st1)" by simp
    from "1.IH"[OF Inr r s c d] show ?thesis .
  qed
qed

lemma copy_steps_waiting:
  "copy_steps as h n = (bs, h', n') \<Longrightarrow> b \<in> set bs \<Longrightarrow> status (h' b) = WAITING"
proof (induction as arbitrary: h n bs h' n')
  case Nil
  then show ?case by simp
next
  case (Cons a as)
  obtain cs h1 n1 where r: "copy_steps as (h(n := copy_step (h a))) (Suc n) = (cs, h1, n1)"
    by (cases "copy_steps as (h(n := copy_step (h a))) (Suc n)")
  from Cons.prems(1) r have eq: "bs = n # cs" "h' = h1" by auto
  show ?case
  proof (cases "b = n")
    case True
    from copy_steps_spec[OF r] have "h1 n = (h(n := copy_step (h a))) n" by simp
    with True eq show ?thesis by (simp add: copy_step_def)
  next
    case False
    with Cons.prems(2) eq have "b \<in> set cs" by simp
    from Cons.IH[OF r this] eq show ?thesis by simp
  qed
qed

lemma copy_steps_ids:
  assumes c: "copy_steps as h n = (bs, h', n')" and lt: "\<forall>a \<in> set as. a < n"
  shows "map (\<lambda>b. step_id (h' b)) bs = map (\<lambda>a. step_id (h a)) as"
proof (rule nth_equalityI)
  from copy_steps_spec[OF c] have bs: "bs = [n ..< n + length as]" by simp
  then show "length (map (\<lambda>b. step_id (h' b)) bs) = length (map (\<lambda>a. step_id (h a)) as)" by simp
  fix i assume "i < length (map (\<lambda>b. step_id (h' b)) bs)"
  with bs have i: "i < length as" by simp
  from copy_steps_copies[OF c lt i] have "h' (n + i) = copy_step (h (as ! i))" .
  with i bs show "map (\<lambda>b. step_id (h' b)) bs ! i = map (\<lambda>a. step_id (h a)) as ! i"
    by (simp add: copy_step_def)
qed

lemma settled_initial:
  assumes "copy_steps as h n = (bs, h', n')"
  shows "settled bs {} (initial_state h' ctx)"
  using copy_steps_waiting[OF assms] by (simp add: settled_def initial_state_def)

text \<open>
  A sample workflow with a guarded step: \<open>check\<close> runs only if the variable
  \<open>flag\<close> exists, and \<open>report\<close> depends on \<open>check\<close>.
\<close>

definition skip_store :: store where
  "skip_store =
     (\<lambda>a. new_step [] [] 0)
       (0 := (new_step ''check'' [] 3)
               \<lparr>conditions := [[(''type'', PStr ''variable_exists''), (''variable'', PStr ''flag'')]]\<rparr>,
        1 := new_step ''report'' [''check''] 3)"

definition skip_engine :: WorkflowEngine where
  "skip_engine =
     \<lparr>active_workflows = [], completed_workflows = [],
      workflow_templates = [(''guarded'', new_workflow ''guarded'' [0, 1])],
      objects = skip_store, next_addr = 2\<rparr>"

section \<open>Retries\<close>

subsection \<open>The fields of a step that no run writes\<close>

definition same_static :: "WorkflowStep \<Rightarrow> WorkflowStep \<Rightarrow> bool" where
  "same_static s s' \<longleftrightarrow>
     step_id s' = step_id s \<and> tool s' = tool s \<and> action s' = action s \<and>
     parameters s' = parameters s \<and> dependencies s' = dependencies s \<and>
     conditions s' = conditions s"

lemma same_static_refl: "same_static s s"
  by (simp add: same_static_def)

lemma same_static_trans: "same_static s s' \<Longrightarrow> same_static s' s'' \<Longrightarrow> same_static s s''"
  by (simp add: same_static_def)

lemma execute_step_static: "same_static step (fst (execute_step invoke t step ctx))"
  by (simp add: execute_step_def same_static_def Let_def split: sum.splits bool.splits)

lemma run_tasks_static:
  "run_tasks invoke t ctx as h = (h', rs) \<Longrightarrow> same_static (h x) (h' x)"
proof (induction as arbitrary: h h' rs)
  case Nil
  then show ?case by (simp add: same_static_refl)
next
  case (Cons a as)
  obtain s r where e: "execute_step invoke t (h a) ctx = (s, r)" by (cases "execute_step invoke t (h a) ctx")
  obtain h1 rs1 where r: "run_tasks invoke t ctx as (h(a := s)) = (h1, rs1)"
    by (cases "run_tasks invoke t ctx as (h(a := s))")
  from Cons.prems e r have eq: "h' = h1" by auto
  from execute_step_static[of "h a" invoke t ctx] e have "same_static (h a) s" by simp
  then have "same_static (h x) ((h(a := s)) x)" by (simp add: same_static_refl)
  from same_static_trans[OF this Cons.IH[OF r]] show ?case by (simp add: eq)
qed

lemma handle_result_static:
  "handle_result a r st = (st', exc) \<Longrightarrow> same_static (st_store st x) (st_store st' x)"
  by (cases r) (auto simp: Let_def same_static_def split: if_splits)

lemma handle_results_static:
  "handle_results rs st = (st', exc) \<Longrightarrow> same_static (st_store st x) (st_store st' x)"
proof (induction rs arbitrary: st)
  case Nil
  then show ?case by (simp add: same_static_refl)
next
  case (Cons p rs)
  obtain a r where p: "p = (a, r)" by (cases p)
  obtain st1 e1 where h: "handle_result a r st = (st1, e1)" by (cases "handle_result a r st")
  note f = handle_result_static[OF h, of x]
  show ?case
  proof (cases e1)
    case None
    with Cons.prems p h have "handle_results rs st1 = (st', exc)" by simp
    from same_static_trans[OF f Cons.IH[OF this]] show ?thesis .
  next
    case (Some e)
    with Cons.prems p h have "st' = st1" by simp
    with f show ?thesis by simp
  qed
qed

lemma loop_body_static:
  assumes "loop_body invoke addrs t st = Inr st'"
  shows "same_static (st_store st x) (st_store st' x)"
  using assms
proof (cases rule: loop_body_cases)
  case (batch h results st1 exc)
  then have "st1 = st'" by (auto split: option.splits)
  with run_tasks_static[OF batch(3), of x] handle_results_static[OF batch(4), of x]
  show ?thesis by (auto intro: same_static_trans)
qed simp_all

subsection \<open>What the loop over the results does to a batch without duplicates\<close>

text \<open>An entry of \<open>results\<close> that does not make the loop raise.\<close>

definition harmless :: "run_state \<Rightarrow> addr \<times> (exn + pyval) \<Rightarrow> bool" where
  "harmless st p \<longleftrightarrow> (case snd p of Inr v \<Rightarrow> True | Inl e \<Rightarrow> 0 < retry_count (st_store st (fst p)))"

lemma handle_results_no_raise:
  assumes "distinct (map fst rs)" and "\<And>p. p \<in> set rs \<Longrightarrow> harmless st p"
  shows "snd (handle_results rs st) = None"
  using assms
proof (induction rs arbitrary: st)
  case Nil
  then show ?case by simp
next
  case (Cons p rs)
  obtain a r where p: "p = (a, r)" by (cases p)
  obtain st1 e1 where h: "handle_result a r st = (st1, e1)" by (cases "handle_result a r st")
  from Cons.prems(2)[of p] p have "harmless st (a, r)" by simp
  with h have e1: "e1 = None"
    by (cases r) (auto simp: harmless_def Let_def split: if_splits)
  from Cons.prems(1) p have na: "a \<notin> fst ` set rs" and d: "distinct (map fst rs)" by auto
  have "\<And>q. q \<in> set rs \<Longrightarrow> harmless st1 q"
  proof -
    fix q assume q: "q \<in> set rs"
    with na have "fst q \<noteq> a" by auto
    from handle_result_other[OF h this] Cons.prems(2)[of q] q
    show "harmless st1 q" by (auto simp: harmless_def split: sum.splits)
  qed
  from Cons.IH[OF d this] h e1 p show ?case by simp
qed

lemma handle_results_raise:
  assumes "handle_results rs st = (st', Some e)" and "distinct (map fst rs)"
  shows "\<exists>a. (a, Inl e) \<in> set rs \<and> retry_count (st_store st a) \<le> 0
           \<and> StepFailure (step_id (st_store st a)) e \<in> set (error_log (st_context st'))"
  using assms
proof (induction rs arbitrary: st)
  case Nil
  then show ?case by simp
next
  case (Cons p rs)
  obtain a r where p: "p = (a, r)" by (cases p)
  obtain st1 e1 where h: "handle_result a r st = (st1, e1)" by (cases "handle_result a r st")
  from Cons.prems(2) p have na: "a \<notin> fst ` set rs" and d: "distinct (map fst rs)" by auto
  show ?case
  proof (cases e1)
    case (Some e')
    with Cons.prems(1) p h have eq: "st' = st1" "e' = e" by simp_all
    from h Some eq have "r = Inl e \<and> retry_count (st_store st a) \<le> 0
        \<and> StepFailure (step_id (st_store st a)) e \<in> set (error_log (st_context st'))"
      by (cases r) (auto simp: Let_def split: if_splits)
    with p show ?thesis by (intro exI[of _ a]) simp
  next
    case None
    with Cons.prems(1) p h have "handle_results rs st1 = (st', Some e)" by simp
    from Cons.IH[OF this d] obtain b where b: "(b, Inl e) \<in> set rs"
      "retry_count (st_store st1 b) \<le> 0"
      "StepFailure (step_id (st_store st1 b)) e \<in> set (error_log (st_context st'))" by blast
    with na have "b \<noteq> a" by force
    from handle_result_other[OF h this] b show ?thesis by (intro exI[of _ b]) simp
  qed
qed

lemma handle_result_retry:
  assumes "handle_result a r st = (st', None)"
  shows "retry_count (st_store st' a) = (if isl r then retry_count (st_store st a) - 1 else retry_count (st_store st a))"
  using assms by (cases r) (auto simp: Let_def split: if_splits)

lemma handle_results_retry:
  assumes "handle_results rs st = (st', None)" and "distinct (map fst rs)"
  shows "retry_count (st_store st' x) =
           (if \<exists>e. (x, Inl e) \<in> set rs then retry_count (st_store st x) - 1
            else retry_count (st_store st x))"
  using assms
proof (induction rs arbitrary: st)
  case Nil
  then show ?case by simp
next
  case (Cons p rs)
  obtain a r where p: "p = (a, r)" by (cases p)
  obtain st1 e1 where h: "handle_result a r st = (st1, e1)" by (cases "handle_result a r st")
  with Cons.prems(1) p have e1: "e1 = None" and hr: "handle_results rs st1 = (st', None)"
    by (auto split: option.splits)
  from Cons.prems(2) p have na: "a \<notin> fst ` set rs" and d: "distinct (map fst rs)" by auto
  note ih = Cons.IH[OF hr d]
  show ?case
  proof (cases "x = a")
    case True
    from na True have nn: "\<not> (\<exists>e. (x, Inl e) \<in> set rs)" by force
    with ih have "retry_count (st_store st' x) = retry_count (st_store st1 x)" by simp
    with handle_result_retry[OF h[unfolded e1]] True p nn show ?thesis
      by (cases r) auto
  next
    case False
    from handle_result_other[OF h False] ih False p show ?thesis by auto
  qed
qed

text \<open>The results of a batch without duplicates, entry by entry.\<close>

lemma run_tasks_results:
  "run_tasks invoke t ctx as h = (h', rs) \<Longrightarrow> distinct as \<Longrightarrow>
     zip as rs = map (\<lambda>a. (a, snd (execute_step invoke t (h a) ctx))) as"
proof (induction as arbitrary: h h' rs)
  case Nil
  then show ?case by simp
next
  case (Cons a as)
  obtain s r where e: "execute_step invoke t (h a) ctx = (s, r)" by (cases "execute_step invoke t (h a) ctx")
  obtain h1 rs1 where r: "run_tasks invoke t ctx as (h(a := s)) = (h1, rs1)"
    by (cases "run_tasks invoke t ctx as (h(a := s))")
  from Cons.prems(1) e r have eq: "rs = r # rs1" by auto
  from Cons.prems(2) have d: "distinct as" and na: "a \<notin> set as" by auto
  from Cons.IH[OF r d] na
  have "zip as rs1 = map (\<lambda>b. (b, snd (execute_step invoke t (h b) ctx))) as"
    by (auto intro!: map_cong simp del: map_eq_conv) 
  with e eq show ?case by simp
qed


subsection \<open>Failing calls and the retry budget\<close>

text \<open>
  The batches in which the call made for a step can fail, a step whose call
  always fails, and the part of the retry budget that the failures from batch
  \<open>t\<close> on can use up.
\<close>

definition failing_batches :: "invoker \<Rightarrow> WorkflowStep \<Rightarrow> nat set" where
  "failing_batches invoke step =
     {t. \<exists>ps. isl (invoke t (step_id step) (tool step) (action step) ps)}"

definition always_fails :: "invoker \<Rightarrow> WorkflowStep \<Rightarrow> bool" where
  "always_fails invoke step \<longleftrightarrow>
     (\<forall>t ps. isl (invoke t (step_id step) (tool step) (action step) ps))"

definition budget_left :: "invoker \<Rightarrow> nat \<Rightarrow> WorkflowStep \<Rightarrow> bool" where
  "budget_left invoke t step \<longleftrightarrow>
     finite (failing_batches invoke step) \<and>
     int (card (failing_batches invoke step \<inter> {t..})) \<le> retry_count step"

definition within_budget :: "invoker \<Rightarrow> WorkflowStep \<Rightarrow> bool" where
  "within_budget invoke step \<longleftrightarrow> budget_left invoke 0 step"

text \<open>The conditions of a step never raise, and the conditions of a step always hold.\<close>

definition conditions_safe :: "WorkflowStep \<Rightarrow> bool" where
  "conditions_safe step \<longleftrightarrow> (\<forall>ctx. \<not> isl (check_step_conditions step ctx))"

definition never_skipped :: "WorkflowStep \<Rightarrow> bool" where
  "never_skipped step \<longleftrightarrow> (\<forall>ctx. check_step_conditions step ctx = Inr True)"

text \<open>Every dependency of a step is the id of a step earlier in the list.\<close>

definition deps_backward :: "addr list \<Rightarrow> store \<Rightarrow> bool" where
  "deps_backward addrs h \<longleftrightarrow>
     (\<forall>i < length addrs.
        set (dependencies (h (addrs ! i))) \<subseteq> (\<lambda>a. step_id (h a)) ` set (take i addrs))"

lemma static_failing_batches:
  "same_static s s' \<Longrightarrow> failing_batches invoke s' = failing_batches invoke s"
  by (simp add: same_static_def failing_batches_def)

lemma static_conditions_safe: "same_static s s' \<Longrightarrow> conditions_safe s' = conditions_safe s"
  by (simp add: same_static_def conditions_safe_def check_step_conditions_def)

lemma static_deps_backward:
  "(\<And>x. same_static (h x) (h' x)) \<Longrightarrow> deps_backward addrs h' = deps_backward addrs h"
  by (simp add: same_static_def deps_backward_def)

lemma step_outcome_budget:
  assumes "conditions_safe step" and "snd (execute_step invoke t step ctx) = Inl e"
  shows "t \<in> failing_batches invoke step"
proof -
  from assms(1) have c: "\<not> isl (check_conditions (conditions step) ctx)"
    by (simp add: conditions_safe_def check_step_conditions_def)
  then obtain b where b: "check_conditions (conditions step) ctx = Inr b"
    by (cases "check_conditions (conditions step) ctx") simp_all
  with assms(2) have "isl (invoke t (step_id step) (tool step) (action step)
      (process_step_parameters (parameters step) ctx))"
    by (cases b) (auto simp: execute_step_def check_step_conditions_def Let_def split: sum.splits)
  then show ?thesis unfolding failing_batches_def by blast
qed

lemma step_outcome_fails:
  assumes "always_fails invoke step" and "never_skipped step"
  shows "isl (snd (execute_step invoke t step ctx))"
proof -
  from assms(2) have "check_conditions (conditions step) ctx = Inr True"
    by (simp add: never_skipped_def check_step_conditions_def)
  moreover from assms(1) have "isl (invoke t (step_id step) (tool step) (action step)
      (process_step_parameters (parameters step) ctx))"
    by (simp add: always_fails_def)
  ultimately show ?thesis
    by (auto simp: execute_step_def check_step_conditions_def Let_def split: sum.splits)
qed

lemma budget_left_positive:
  assumes "budget_left invoke t step" and "t \<in> failing_batches invoke step"
  shows "0 < retry_count step"
proof -
  from assms have "failing_batches invoke step \<inter> {t..} \<noteq> {}" by auto
  moreover from assms(1) have "finite (failing_batches invoke step \<inter> {t..})"
    by (simp add: budget_left_def)
  ultimately have "0 < card (failing_batches invoke step \<inter> {t..})"
    by (simp add: card_gt_0_iff)
  with assms(1) show ?thesis by (simp add: budget_left_def)
qed

lemma budget_left_Suc:
  assumes "budget_left invoke t step"
    and "failing_batches invoke step' = failing_batches invoke step"
    and "retry_count step' = (if t \<in> failing_batches invoke step then retry_count step - 1 else retry_count step)
         \<or> retry_count step' = retry_count step"
  shows "budget_left invoke (Suc t) step'"
proof -
  let ?F = "failing_batches invoke step"
  from assms(1) have fin: "finite ?F" and le: "int (card (?F \<inter> {t..})) \<le> retry_count step"
    by (simp_all add: budget_left_def)
  have sub: "?F \<inter> {Suc t..} \<subseteq> ?F \<inter> {t..}" by auto
  have mono: "card (?F \<inter> {Suc t..}) \<le> card (?F \<inter> {t..})"
    by (rule card_mono) (use fin sub in auto)
  show ?thesis
  proof (cases "t \<in> ?F")
    case True
    have "?F \<inter> {t..} = insert t (?F \<inter> {Suc t..})" using True by auto
    moreover have "t \<notin> ?F \<inter> {Suc t..}" by simp
    ultimately have "card (?F \<inter> {t..}) = Suc (card (?F \<inter> {Suc t..}))"
      using fin by (simp add: card_insert_if)
    with le assms(3) True show ?thesis
      unfolding budget_left_def assms(2) using fin by auto
  next
    case False
    with assms(3) have "retry_count step' = retry_count step" by auto
    with le mono show ?thesis unfolding budget_left_def assms(2) using fin by simp
  qed
qed

subsection \<open>Progress\<close>

lemma scheduler_progress:
  assumes s: "settled addrs {} st" and bw: "deps_backward addrs (st_store st)"
    and rem: "remaining_steps addrs st \<noteq> []"
  shows "ready_steps addrs st \<noteq> []"
proof
  assume empty: "ready_steps addrs st = []"
  let ?f = "\<lambda>a. step_id (st_store st a)"
  have all: "i < length addrs \<Longrightarrow> ?f (addrs ! i) \<in> set (st_completed st)" for i
  proof (induction i rule: less_induct)
    case (less i)
    let ?a = "addrs ! i"
    from less.prems have a: "?a \<in> set addrs" by simp
    show ?case
    proof (rule ccontr)
      assume nc: "?f ?a \<notin> set (st_completed st)"
      with s a have w: "status (st_store st ?a) = WAITING" by (auto simp: settled_def)
      have "\<forall>dep \<in> set (dependencies (st_store st ?a)). dep \<in> set (st_completed st)"
      proof
        fix dep assume "dep \<in> set (dependencies (st_store st ?a))"
        with bw less.prems have "dep \<in> ?f ` set (take i addrs)"
          by (auto simp: deps_backward_def)
        then obtain j where j: "j < i" "dep = ?f (addrs ! j)"
          using less.prems by (auto simp: in_set_conv_nth)
        with less.IH[of j] less.prems show "dep \<in> set (st_completed st)" by simp
      qed
      with nc w have "is_ready st ?a" by (simp add: is_ready_def)
      with a have "?a \<in> set (ready_steps addrs st)" by (simp add: ready_steps_def)
      with empty show False by simp
    qed
  qed
  from rem obtain a where "a \<in> set addrs" "?f a \<notin> set (st_completed st)"
    by (auto simp: remaining_steps_def filter_empty_conv)
  with all show False by (auto simp: in_set_conv_nth)
qed


subsection \<open>Runs in which the steps of a set \<open>G\<close> stay within their retry budget\<close>

definition run_ok :: "invoker \<Rightarrow> addr list \<Rightarrow> addr set \<Rightarrow> nat \<Rightarrow> run_state \<Rightarrow> bool" where
  "run_ok invoke addrs G t st \<longleftrightarrow>
     settled addrs {} st \<and> completed_ok addrs {} st \<and> distinct_ids addrs (st_store st) \<and>
     deps_backward addrs (st_store st) \<and>
     (\<forall>a \<in> set addrs. conditions_safe (st_store st a)) \<and>
     (\<forall>a \<in> G. budget_left invoke t (st_store st a))"

lemma batch_entries:
  assumes ids: "distinct_ids addrs (st_store st)"
    and rt: "run_tasks invoke t (st_context st) (ready_steps addrs st) (st_store st) = (h, results)"
  shows "zip (ready_steps addrs st) results =
           map (\<lambda>a. (a, snd (execute_step invoke t (st_store st a) (st_context st))))
             (ready_steps addrs st)"
    and "distinct (map fst (zip (ready_steps addrs st) results))"
    and "fst ` set (zip (ready_steps addrs st) results) \<subseteq> set addrs"
proof -
  from ids have "distinct addrs" by (simp add: distinct_ids_def distinct_map)
  then have rd: "distinct (ready_steps addrs st)" by (simp add: ready_steps_def)
  from run_tasks_results[OF rt rd]
  show z: "zip (ready_steps addrs st) results =
           map (\<lambda>a. (a, snd (execute_step invoke t (st_store st a) (st_context st))))
             (ready_steps addrs st)" .
  show "distinct (map fst (zip (ready_steps addrs st) results))"
    unfolding z using rd by (simp add: comp_def)
  show "fst ` set (zip (ready_steps addrs st) results) \<subseteq> set addrs"
    unfolding z by (auto simp: ready_steps_def)
qed

lemma batch_harmless:
  assumes ok: "run_ok invoke addrs G t st"
    and rt: "run_tasks invoke t (st_context st) (ready_steps addrs st) (st_store st) = (h, results)"
    and p: "p \<in> set (zip (ready_steps addrs st) results)" and g: "fst p \<in> G"
  shows "harmless (st\<lparr>st_store := h\<rparr>) p"
proof (cases "snd p")
  case (Inr v)
  then show ?thesis by (simp add: harmless_def)
next
  case (Inl e)
  let ?a = "fst p"
  from ok have ids: "distinct_ids addrs (st_store st)" by (simp add: run_ok_def)
  from p batch_entries(1)[OF ids rt]
  have a: "?a \<in> set addrs" and r: "snd p = snd (execute_step invoke t (st_store st ?a) (st_context st))"
    by (auto simp: ready_steps_def)
  from ok a have "conditions_safe (st_store st ?a)" by (simp add: run_ok_def)
  from step_outcome_budget[OF this, of invoke t "st_context st" e] r Inl
  have "t \<in> failing_batches invoke (st_store st ?a)" by simp
  moreover from ok g have "budget_left invoke t (st_store st ?a)" by (simp add: run_ok_def)
  ultimately have "0 < retry_count (st_store st ?a)" by (intro budget_left_positive)
  with run_tasks_frame[OF rt, of ?a] Inl show ?thesis by (simp add: harmless_def)
qed

lemma run_ok_pass:
  assumes ok: "run_ok invoke addrs G t st" and g: "G \<subseteq> set addrs"
    and body: "loop_body invoke addrs t st = Inr st'"
  shows "run_ok invoke addrs G (Suc t) st'"
proof -
  from ok have s: "settled addrs {} st" and c: "completed_ok addrs {} st"
    and ids: "distinct_ids addrs (st_store st)" and bw: "deps_backward addrs (st_store st)"
    and safe: "\<forall>a \<in> set addrs. conditions_safe (st_store st a)"
    and bud: "\<forall>a \<in> G. budget_left invoke t (st_store st a)"
    by (simp_all add: run_ok_def)
  from ids have da: "distinct addrs" by (simp add: distinct_ids_def distinct_map)
  note static = loop_body_static[OF body]
  have 1: "settled addrs {} st'" using loop_body_settled[OF s ids body] .
  have 2: "completed_ok addrs {} st'" using loop_body_completed_ok[OF c da body] .
  have 3: "distinct_ids addrs (st_store st')"
    using ids distinct_ids_cong[of "st_store st'" "st_store st" addrs] loop_body_ids[OF body] by simp
  have 4: "deps_backward addrs (st_store st')"
    using bw static_deps_backward[of "st_store st" "st_store st'" addrs] static by simp
  have 5: "\<forall>a \<in> set addrs. conditions_safe (st_store st' a)"
    using safe static_conditions_safe[OF static] by simp
  have 6: "\<forall>a \<in> G. budget_left invoke (Suc t) (st_store st' a)"
  proof
    fix a assume a: "a \<in> G"
    from body show "budget_left invoke (Suc t) (st_store st' a)"
    proof (cases rule: loop_body_cases)
      case (batch h results st1 exc)
      then have hr: "handle_results (zip (ready_steps addrs st) results) (st\<lparr>st_store := h\<rparr>) = (st', None)"
        by (auto split: option.splits)
      note be = batch_entries[OF ids batch(3)]
      from handle_results_retry[OF hr be(2), of a] run_tasks_frame[OF batch(3), of a]
      have rc: "retry_count (st_store st' a) =
          (if \<exists>e. (a, Inl e) \<in> set (zip (ready_steps addrs st) results)
           then retry_count (st_store st a) - 1 else retry_count (st_store st a))" by simp
      have "retry_count (st_store st' a) =
          (if t \<in> failing_batches invoke (st_store st a) then retry_count (st_store st a) - 1
           else retry_count (st_store st a))
        \<or> retry_count (st_store st' a) = retry_count (st_store st a)"
      proof (cases "\<exists>e. (a, Inl e) \<in> set (zip (ready_steps addrs st) results)")
        case True
        then obtain e where e: "(a, Inl e) \<in> set (zip (ready_steps addrs st) results)" by blast
        with be(1) have "snd (execute_step invoke t (st_store st a) (st_context st)) = Inl e" by auto
        moreover from a g safe have "conditions_safe (st_store st a)" by auto
        ultimately have "t \<in> failing_batches invoke (st_store st a)"
          by (intro step_outcome_budget)
        with rc True show ?thesis by simp
      next
        case False
        with rc show ?thesis by simp
      qed
      moreover from bud a have "budget_left invoke t (st_store st a)" by simp
      ultimately show ?thesis
        using static_failing_batches[OF static, of invoke a] by (intro budget_left_Suc) auto
    qed simp_all
  qed
  from 1 2 3 4 5 6 show ?thesis by (simp add: run_ok_def)
qed

lemma run_ok_no_raise:
  assumes ok: "run_ok invoke addrs (set addrs) t st"
    and body: "loop_body invoke addrs t st = Inl (st', Some e)"
  shows False
  using body
proof (cases rule: loop_body_cases)
  case deadlock
  from ok have "settled addrs {} st" "deps_backward addrs (st_store st)" by (simp_all add: run_ok_def)
  from scheduler_progress[OF this deadlock(2)] deadlock(1) show False by simp
next
  case (batch h results st1 exc)
  from ok have ids: "distinct_ids addrs (st_store st)" by (simp add: run_ok_def)
  note be = batch_entries[OF ids batch(3)]
  have "snd (handle_results (zip (ready_steps addrs st) results) (st\<lparr>st_store := h\<rparr>)) = None"
  proof (rule handle_results_no_raise[OF be(2)])
    fix p assume p: "p \<in> set (zip (ready_steps addrs st) results)"
    with be(3) have "fst p \<in> set addrs" by auto
    from batch_harmless[OF ok batch(3) p this] show "harmless (st\<lparr>st_store := h\<rparr>) p" .
  qed
  with batch(4) have "exc = None" by simp
  with batch(5) show False by simp
qed simp_all

lemma run_within_budget:
  "run_ok invoke addrs (set addrs) t st \<Longrightarrow> snd (execute_workflow_steps invoke addrs t st) = None"
proof (induction invoke addrs t st rule: execute_workflow_steps.induct)
  case (1 invoke addrs t st)
  show ?case
  proof (cases "loop_body invoke addrs t st")
    case (Inl outcome)
    obtain st' exc where o: "outcome = (st', exc)" by (cases outcome)
    have "exc = None"
    proof (cases exc)
      case (Some e)
      with Inl o run_ok_no_raise[OF "1.prems"] show ?thesis by blast
    qed simp
    with Inl o show ?thesis by (subst execute_workflow_steps.simps) simp
  next
    case (Inr st1)
    from run_ok_pass[OF "1.prems" _ Inr] have "run_ok invoke addrs (set addrs) (Suc t) st1" by simp
    from "1.IH"[OF Inr this] Inr show ?thesis by (subst execute_workflow_steps.simps) simp
  qed
qed

subsection \<open>A step whose call always fails\<close>

lemma handle_result_completed_grows:
  assumes "handle_result a r st = (st', exc)"
  shows "set (st_completed st') \<subseteq>
           set (st_completed st) \<union> (if isl r then {} else {step_id (st_store st a)})"
  using assms by (cases r) (auto simp: Let_def split: if_splits)

lemma handle_results_completed_grows:
  assumes "handle_results rs st = (st', exc)"
  shows "set (st_completed st') \<subseteq>
           set (st_completed st) \<union> {step_id (st_store st a) |a v. (a, Inr v) \<in> set rs}"
  using assms
proof (induction rs arbitrary: st)
  case Nil
  then show ?case by simp
next
  case (Cons p rs)
  obtain a r where p: "p = (a, r)" by (cases p)
  obtain st1 e1 where h: "handle_result a r st = (st1, e1)" by (cases "handle_result a r st")
  note g = handle_result_completed_grows[OF h]
  have ids: "\<And>x. step_id (st_store st1 x) = step_id (st_store st x)"
    using handle_result_frame(1)[OF h] .
  show ?case
  proof (cases e1)
    case None
    with Cons.prems p h have "handle_results rs st1 = (st', exc)" by simp
    from Cons.IH[OF this] g p show ?thesis
      unfolding ids by (cases r) (auto split: if_splits)
  next
    case (Some e)
    with Cons.prems p h have "st' = st1" by simp
    with g p show ?thesis by (cases r) (auto split: if_splits)
  qed
qed

text \<open>
  The step at \<open>s\<close> always fails and is never skipped, it is not completed, and
  every other step stays within its budget.
\<close>

definition run_failing :: "invoker \<Rightarrow> addr list \<Rightarrow> addr \<Rightarrow> nat \<Rightarrow> run_state \<Rightarrow> bool" where
  "run_failing invoke addrs s t st \<longleftrightarrow>
     run_ok invoke addrs (set addrs - {s}) t st \<and> s \<in> set addrs \<and>
     always_fails invoke (st_store st s) \<and> never_skipped (st_store st s) \<and>
     step_id (st_store st s) \<notin> set (st_completed st)"

lemma static_always_fails: "same_static s s' \<Longrightarrow> always_fails invoke s' = always_fails invoke s"
  by (simp add: same_static_def always_fails_def)

lemma static_never_skipped: "same_static s s' \<Longrightarrow> never_skipped s' = never_skipped s"
  by (simp add: same_static_def never_skipped_def check_step_conditions_def)

lemma run_failing_pass:
  assumes f: "run_failing invoke addrs s t st" and body: "loop_body invoke addrs t st = Inr st'"
  shows "run_failing invoke addrs s (Suc t) st'"
proof -
  from f have ok: "run_ok invoke addrs (set addrs - {s}) t st" and s: "s \<in> set addrs"
    and af: "always_fails invoke (st_store st s)" and ns: "never_skipped (st_store st s)"
    and nc: "step_id (st_store st s) \<notin> set (st_completed st)"
    by (simp_all add: run_failing_def)
  from ok have ids: "distinct_ids addrs (st_store st)" by (simp add: run_ok_def)
  note static = loop_body_static[OF body, of s]
  have 1: "run_ok invoke addrs (set addrs - {s}) (Suc t) st'"
    using run_ok_pass[OF ok _ body] by auto
  have 2: "always_fails invoke (st_store st' s)" using af static_always_fails[OF static] by simp
  have 3: "never_skipped (st_store st' s)" using ns static_never_skipped[OF static] by simp
  have 4: "step_id (st_store st' s) \<notin> set (st_completed st')"
    using body
  proof (cases rule: loop_body_cases)
    case (batch h results st1 exc)
    then have hr: "handle_results (zip (ready_steps addrs st) results) (st\<lparr>st_store := h\<rparr>) = (st', None)"
      by (auto split: option.splits)
    note be = batch_entries[OF ids batch(3)]
    have hid: "\<And>x. step_id (h x) = step_id (st_store st x)" using run_tasks_frame[OF batch(3)] by simp
    show ?thesis
    proof
      assume "step_id (st_store st' s) \<in> set (st_completed st')"
      with loop_body_ids[OF body, of s] handle_results_completed_grows[OF hr] nc
      obtain a v where a: "(a, Inr v) \<in> set (zip (ready_steps addrs st) results)"
        and eq: "step_id (st_store st s) = step_id (st_store st a)"
        by (auto simp: hid)
      from a be(3) have "a \<in> set addrs" by force
      with distinct_ids_neq[OF ids s this] eq have "a = s" by auto
      with a be(1) have "snd (execute_step invoke t (st_store st s) (st_context st)) = Inr v" by auto
      with step_outcome_fails[OF af ns, of t "st_context st"] show False by simp
    qed
  qed simp_all
  from 1 s 2 3 4 show ?thesis by (simp add: run_failing_def)
qed

lemma run_failing_end:
  assumes f: "run_failing invoke addrs s t st"
    and body: "loop_body invoke addrs t st = Inl (st', exc)"
  shows "\<exists>e. exc = Some e \<and> StepFailure (step_id (st_store st s)) e \<in> set (error_log (st_context st'))"
proof -
  from f have ok: "run_ok invoke addrs (set addrs - {s}) t st" and s: "s \<in> set addrs"
    and nc: "step_id (st_store st s) \<notin> set (st_completed st)"
    by (simp_all add: run_failing_def)
  from ok have ids: "distinct_ids addrs (st_store st)" and c: "completed_ok addrs {} st"
    and st: "settled addrs {} st" and bw: "deps_backward addrs (st_store st)"
    by (simp_all add: run_ok_def)
  from s nc have rem: "remaining_steps addrs st \<noteq> []"
    by (auto simp: remaining_steps_def filter_empty_conv)
  from body show ?thesis
  proof (cases rule: loop_body_cases)
    case finished
    with loop_body_end[OF _ c, of invoke t st'] body rem show ?thesis by simp
  next
    case deadlock
    from scheduler_progress[OF st bw rem] deadlock(1) show ?thesis by simp
  next
    case (batch h results st1 exc1)
    from batch(5) obtain e where e: "exc1 = Some e" and eq: "st1 = st'" "exc = Some e"
      by (cases exc1) auto
    note be = batch_entries[OF ids batch(3)]
    have hid: "\<And>x. step_id (h x) = step_id (st_store st x)" using run_tasks_frame[OF batch(3)] by simp
    from handle_results_raise[OF batch(4)[unfolded e] be(2)]
    obtain a where a: "(a, Inl e) \<in> set (zip (ready_steps addrs st) results)"
      and rc: "retry_count (h a) \<le> 0"
      and log: "StepFailure (step_id (h a)) e \<in> set (error_log (st_context st1))"
      by auto
    from a be(3) have aa: "a \<in> set addrs" by force
    have "a = s"
    proof (rule ccontr)
      assume "a \<noteq> s"
      with aa have "fst (a, Inl e :: exn + pyval) \<in> set addrs - {s}" by simp
      from batch_harmless[OF ok batch(3) a this] rc show False by (simp add: harmless_def)
    qed
    with log eq hid show ?thesis by simp
  qed
qed

lemma run_always_failing:
  "run_failing invoke addrs s t st \<Longrightarrow>
     \<exists>st' e e'. execute_workflow_steps invoke addrs t st = (st', Some e)
       \<and> StepFailure (step_id (st_store st s)) e' \<in> set (error_log (st_context st'))"
proof (induction invoke addrs t st rule: execute_workflow_steps.induct)
  case (1 invoke addrs t st)
  show ?case
  proof (cases "loop_body invoke addrs t st")
    case (Inl outcome)
    obtain st' exc where o: "outcome = (st', exc)" by (cases outcome)
    from run_failing_end[OF "1.prems" Inl[unfolded o]]
    obtain e where "exc = Some e"
      "StepFailure (step_id (st_store st s)) e \<in> set (error_log (st_context st'))" by blast
    moreover from Inl o have "execute_workflow_steps invoke addrs t st = (st', exc)"
      by (subst execute_workflow_steps.simps) simp
    ultimately show ?thesis by blast
  next
    case (Inr st1)
    from "1.IH"[OF Inr run_failing_pass[OF "1.prems" Inr]]
    obtain st' e e' where "execute_workflow_steps invoke addrs (Suc t) st1 = (st', Some e)"
      "StepFailure (step_id (st_store st1 s)) e' \<in> set (error_log (st_context st'))" by blast
    moreover from Inr have "execute_workflow_steps invoke addrs t st
        = execute_workflow_steps invoke addrs (Suc t) st1"
      by (subst execute_workflow_steps.simps) simp
    ultimately show ?thesis using loop_body_ids[OF Inr, of s] by auto
  qed
qed

end
